theory Spec2Isabelle
  imports Complex_Main "HOL-Library.Sublist" "HOL-Library.Multiset"
begin

text \<open>
  A model of \<^verbatim>\<open>run_xlm_roberta.py\<close>: the cleaning of comment texts, the transforms and
  the synthetic mixer, the dataset's \<^verbatim>\<open>__getitem__\<close>, the two meters, and the skip and
  checkpoint policies of \<^verbatim>\<open>TPUFitter\<close>. What belongs to external libraries (the sentence
  splitter, the subword vocabulary, the classifier with its optimizer and scheduler,
  \<^verbatim>\<open>roc_auc_score\<close>) is a parameter of the definitions that use it. The definitions
  come first, the properties after them.
\<close>

section \<open>Errors\<close>

text \<open>
  The exceptions the script can raise on the paths modelled here. Every raise is a
  branch of the model that returns one of these: as \<open>Inl\<close> of a sum, or next to the state
  that the call leaves behind.
\<close>

datatype py_error =
  IndexError | UnboundLocalError | ValueError | ZeroDivisionError | FileNotFoundError

section \<open>Characters and the regular expressions of clean_text\<close>

text \<open>
  A Python \<^verbatim>\<open>str\<close> is a sequence of Unicode code points, so a text is a list of natural
  numbers, one per code point. \<open>ustr\<close> writes an ASCII literal as such a list.
\<close>

type_synonym ustring = "nat list"

definition ustr :: "string \<Rightarrow> ustring" where
  "ustr s = map of_char s"

text \<open>
  The classes \<^verbatim>\<open>\s\<close> and \<^verbatim>\<open>\w\<close> of \<^verbatim>\<open>re\<close> on a \<^verbatim>\<open>str\<close> pattern, and the whitespace of
  \<^verbatim>\<open>str.strip\<close>, follow the Unicode database of the interpreter. On ASCII they are
  written out: \<^verbatim>\<open>\s\<close> is \<^verbatim>\<open>[ \t\n\r\f\v]\<close> and the separators 0x1C..0x1F, \<^verbatim>\<open>\w\<close> is
  \<^verbatim>\<open>[A-Za-z0-9_]\<close>. Above ASCII the database is a parameter: which code points are
  whitespace, and which are alphanumeric (the word characters there).
\<close>

record ucd =
  uni_space :: "nat \<Rightarrow> bool"
  uni_alnum :: "nat \<Rightarrow> bool"

definition is_space :: "ucd \<Rightarrow> nat \<Rightarrow> bool" where
  "is_space U c =
     (if c < 128 then (9 \<le> c \<and> c \<le> 13) \<or> (28 \<le> c \<and> c \<le> 32) else uni_space U c)"

definition is_digit :: "nat \<Rightarrow> bool" where
  "is_digit c = (48 \<le> c \<and> c \<le> 57)"

definition is_word :: "ucd \<Rightarrow> nat \<Rightarrow> bool" where
  "is_word U c =
     (if c < 128 then
        (48 \<le> c \<and> c \<le> 57) \<or> (65 \<le> c \<and> c \<le> 90) \<or> (97 \<le> c \<and> c \<le> 122) \<or> c = 95
      else uni_alnum U c)"

text \<open>In the Unicode database no whitespace character is a word character.\<close>

definition ucd_ok :: "ucd \<Rightarrow> bool" where
  "ucd_ok U = (\<forall>c. is_space U c \<longrightarrow> \<not> is_word U c)"

text \<open>
  \<^verbatim>\<open>re.sub(r'[0-9"]', '', text)\<close>: every digit and every double quote (code point 34) is
  deleted. The range \<^verbatim>\<open>[0-9]\<close> is the ASCII digits, also on a \<^verbatim>\<open>str\<close>.
\<close>

definition sub_digits_quotes :: "ustring \<Rightarrow> ustring" where
  "sub_digits_quotes s = filter (\<lambda>c. \<not> (is_digit c \<or> c = 34)) s"

text \<open>\<^verbatim>\<open>re.sub(r'[0-9]', '', text)\<close> of ExcludeNumbersTransform.\<close>

definition sub_digits :: "ustring \<Rightarrow> ustring" where
  "sub_digits s = filter (\<lambda>c. \<not> is_digit c) s"

text \<open>The maximal run of non-whitespace characters at the start of a string.\<close>

definition run :: "ucd \<Rightarrow> ustring \<Rightarrow> ustring" where
  "run U s = takeWhile (\<lambda>c. \<not> is_space U c) s"

text \<open>
  \<^verbatim>\<open>\b\<close> between the characters \<open>k - 1\<close> and \<open>k\<close> of \<open>cs\<close>, for \<open>0 < k \<le> length cs\<close>:
  exactly one of the two is a word character (the end of the string is not one).
\<close>

definition boundary_at :: "ucd \<Rightarrow> ustring \<Rightarrow> nat \<Rightarrow> bool" where
  "boundary_at U cs k = (is_word U (cs ! (k - 1)) \<noteq> (k < length cs \<and> is_word U (cs ! k)))"

text \<open>
  \<^verbatim>\<open>[\S]+\b\<close> matched at the start of \<open>cs\<close> (the text right after a \<^verbatim>\<open>#\<close> or \<^verbatim>\<open>@\<close>): the
  greedy \<^verbatim>\<open>[\S]+\<close> takes the whole run and gives characters back until \<^verbatim>\<open>\b\<close> holds, so
  the match is the longest non-empty prefix of the run that ends at a word boundary.
  The result is the number of characters matched after the tag character.
\<close>

definition tag_match :: "ucd \<Rightarrow> ustring \<Rightarrow> nat option" where
  "tag_match U cs = find (boundary_at U cs) (rev [1..<Suc (length (run U cs))])"

text \<open>
  \<^verbatim>\<open>re.sub(r'#[\S]+\b', '', text)\<close> and \<^verbatim>\<open>re.sub(r'@[\S]+\b', '', text)\<close>, with the tag
  character as the argument \<open>t\<close> (35 for \<^verbatim>\<open>#\<close>, 64 for \<^verbatim>\<open>@\<close>): leftmost matches, not
  overlapping, each deleted.
\<close>

fun sub_tag :: "ucd \<Rightarrow> nat \<Rightarrow> ustring \<Rightarrow> ustring" where
  "sub_tag U t [] = []"
| "sub_tag U t (c # cs) =
     (if c = t then
        (case tag_match U cs of
           Some k \<Rightarrow> sub_tag U t (drop k cs)
         | None \<Rightarrow> c # sub_tag U t cs)
      else c # sub_tag U t cs)"

text \<open>
  \<^verbatim>\<open>https?\S+\<close> matched at the start of \<open>s\<close>: \<^verbatim>\<open>http\<close> (104, 116, 116, 112), then the
  whole run that follows, which must not be empty (when the run is just \<^verbatim>\<open>s\<close>, \<^verbatim>\<open>s?\<close>
  gives it back to \<^verbatim>\<open>\S+\<close>). The result is the length of the match.
\<close>

definition url_match :: "ucd \<Rightarrow> ustring \<Rightarrow> nat option" where
  "url_match U s =
     (if take 4 s = [104, 116, 116, 112] \<and> run U (drop 4 s) \<noteq> []
      then Some (4 + length (run U (drop 4 s)))
      else None)"

text \<open>\<^verbatim>\<open>re.sub(r'https?\S+', '', text)\<close>.\<close>

fun sub_url :: "ucd \<Rightarrow> ustring \<Rightarrow> ustring" where
  "sub_url U [] = []"
| "sub_url U (c # cs) =
     (case url_match U (c # cs) of
        Some n \<Rightarrow> sub_url U (drop (n - 1) cs)
      | None \<Rightarrow> c # sub_url U cs)"

text \<open>
  \<^verbatim>\<open>re.sub(r'\s+', ' ', text)\<close>: every maximal run of whitespace becomes one space (code
  point 32).
\<close>

function sub_spaces :: "ucd \<Rightarrow> ustring \<Rightarrow> ustring" where
  "sub_spaces U [] = []"
| "sub_spaces U (c # cs) =
     (if is_space U c then 32 # sub_spaces U (dropWhile (is_space U) cs)
      else c # sub_spaces U cs)"
  by pat_completeness auto
termination
  by (relation "measure (\<lambda>p. length (snd p))") (auto simp: le_imp_less_Suc length_dropWhile_le)

text \<open>\<^verbatim>\<open>str.strip()\<close> and \<^verbatim>\<open>sep.join(list)\<close>.\<close>

definition strip :: "ucd \<Rightarrow> ustring \<Rightarrow> ustring" where
  "strip U s = rev (dropWhile (is_space U) (rev (dropWhile (is_space U) s)))"

fun join :: "ustring \<Rightarrow> ustring list \<Rightarrow> ustring" where
  "join sep [] = []"
| "join sep [x] = x"
| "join sep (x # y # ys) = x @ sep @ join sep (y # ys)"

section \<open>Sentences, duplicate removal and clean_text\<close>

text \<open>The dictionary \<^verbatim>\<open>LANGS\<close> and \<^verbatim>\<open>LANGS.get(lang, 'english')\<close>.\<close>

definition LANGS :: "ustring \<rightharpoonup> ustring" where
  "LANGS = map_of
     [(ustr ''en'', ustr ''english''), (ustr ''it'', ustr ''italian''),
      (ustr ''fr'', ustr ''french''), (ustr ''es'', ustr ''spanish''),
      (ustr ''tr'', ustr ''turkish''), (ustr ''ru'', ustr ''english''),
      (ustr ''pt'', ustr ''english'')]"

definition LANGS_get :: "ustring \<Rightarrow> ustring" where
  "LANGS_get lang = (case LANGS lang of Some l \<Rightarrow> l | None \<Rightarrow> ustr ''english'')"

text \<open>
  \<^verbatim>\<open>nltk.sent_tokenize(text, language)\<close> is a trained sentence splitter of an external
  library. It is a parameter of the model, of this type; nothing is assumed about it
  except where a theorem says so.
\<close>

type_synonym splitter = "ustring \<Rightarrow> ustring \<Rightarrow> ustring list"

definition get_sentences :: "splitter \<Rightarrow> ustring \<Rightarrow> ustring \<Rightarrow> ustring list" where
  "get_sentences st txt lang = st txt (LANGS_get lang)"

text \<open>
  The loop of \<^verbatim>\<open>exclude_duplicate_sentences\<close>, with the list \<^verbatim>\<open>sentences\<close> built so far
  as the first argument after the database:
  \<^verbatim>\<open>
  for sentence in get_sentences(text, lang):
      sentence = sentence.strip()
      if sentence not in sentences:
          sentences.append(sentence)
  \<close>
\<close>

fun exclude_duplicate_loop :: "ucd \<Rightarrow> ustring list \<Rightarrow> ustring list \<Rightarrow> ustring list" where
  "exclude_duplicate_loop U sentences [] = sentences"
| "exclude_duplicate_loop U sentences (s # ss) =
     (let sentence = strip U s in
      exclude_duplicate_loop U
        (if sentence \<notin> set sentences then sentences @ [sentence] else sentences) ss)"

definition exclude_duplicate_sentences :: "ucd \<Rightarrow> splitter \<Rightarrow> ustring \<Rightarrow> ustring \<Rightarrow> ustring" where
  "exclude_duplicate_sentences U st txt lang =
     join [32] (exclude_duplicate_loop U [] (get_sentences st txt lang))"

text \<open>The five \<^verbatim>\<open>re.sub\<close> calls of \<^verbatim>\<open>clean_text\<close>, in the order of the source.\<close>

definition clean_regex :: "ucd \<Rightarrow> ustring \<Rightarrow> ustring" where
  "clean_regex U txt =
     sub_spaces U (sub_url U (sub_tag U 64 (sub_tag U 35 (sub_digits_quotes txt))))"

definition clean_text :: "ucd \<Rightarrow> splitter \<Rightarrow> ustring \<Rightarrow> ustring \<Rightarrow> ustring" where
  "clean_text U st txt lang = strip U (exclude_duplicate_sentences U st (clean_regex U txt) lang)"

text \<open>
  A small splitter for the worked examples: a sentence ends at \<^verbatim>\<open>.\<close>, \<^verbatim>\<open>!\<close> or \<^verbatim>\<open>?\<close>
  (46, 33, 63) followed by a space. On a text without these three characters it returns
  the text as its only sentence, as the trained splitter does.
\<close>

definition is_stop :: "nat \<Rightarrow> bool" where
  "is_stop c = (c = 46 \<or> c = 33 \<or> c = 63)"

fun split_after_stop :: "ustring \<Rightarrow> ustring \<Rightarrow> ustring list" where
  "split_after_stop cur [] = (if cur = [] then [] else [cur])"
| "split_after_stop cur [c] = [cur @ [c]]"
| "split_after_stop cur (c # d # cs) =
     (if is_stop c \<and> d = 32 then (cur @ [c]) # split_after_stop [] cs
      else split_after_stop (cur @ [c]) (d # cs))"

definition example_splitter :: splitter where
  "example_splitter txt language = split_after_stop [] txt"

text \<open>
  Searching a text for the patterns of \<^verbatim>\<open>clean_text\<close> (\<^verbatim>\<open>re.search\<close> with the same
  regular expressions): is there a position where the pattern matches?
\<close>

definition has_digit_quote :: "ustring \<Rightarrow> bool" where
  "has_digit_quote s = list_ex (\<lambda>c. is_digit c \<or> c = 34) s"

fun has_tag :: "ucd \<Rightarrow> nat \<Rightarrow> ustring \<Rightarrow> bool" where
  "has_tag U t [] = False"
| "has_tag U t (c # cs) = ((c = t \<and> tag_match U cs \<noteq> None) \<or> has_tag U t cs)"

fun has_url :: "ucd \<Rightarrow> ustring \<Rightarrow> bool" where
  "has_url U [] = False"
| "has_url U (c # cs) = (url_match U (c # cs) \<noteq> None \<or> has_url U cs)"

text \<open>
  The patterns as the specification words them: a tag character \<^emph>\<open>followed by a
  non-whitespace run\<close>, with no word boundary asked for at the end of the run.
\<close>

fun spec_tag_pattern :: "ucd \<Rightarrow> nat \<Rightarrow> ustring \<Rightarrow> bool" where
  "spec_tag_pattern U t [] = False"
| "spec_tag_pattern U t (c # cs) = ((c = t \<and> run U cs \<noteq> []) \<or> spec_tag_pattern U t cs)"


section \<open>The random module\<close>

text \<open>
  The generator of Python's \<^verbatim>\<open>random\<close> module is a piece of global state that every
  call advances. It is modelled as the stream of the raw draws still to come; a call
  takes the first draw and returns the rest. \<^verbatim>\<open>_randbelow(n)\<close> is the draw reduced modulo
  \<open>n\<close>, so that every value below \<open>n\<close> can come out; \<^verbatim>\<open>random()\<close> is a multiple of
  \<open>2\<^sup>-\<^sup>5\<^sup>3\<close> in \<open>[0, 1)\<close>.
\<close>

type_synonym rng = "nat \<Rightarrow> nat"

definition randbelow :: "nat \<Rightarrow> rng \<Rightarrow> nat \<times> rng" where
  "randbelow n g = (g 0 mod n, \<lambda>i. g (Suc i))"

definition random_unit :: "rng \<Rightarrow> real \<times> rng" where
  "random_unit g = (real (g 0 mod 2 ^ 53) / 2 ^ 53, \<lambda>i. g (Suc i))"

text \<open>\<^verbatim>\<open>random.randint(a, b)\<close> is \<^verbatim>\<open>a + _randbelow(b - a + 1)\<close>.\<close>

definition randint :: "nat \<Rightarrow> nat \<Rightarrow> rng \<Rightarrow> nat \<times> rng" where
  "randint a b g = (case randbelow (b - a + 1) g of (r, g') \<Rightarrow> (a + r, g'))"

text \<open>\<^verbatim>\<open>random.choice(seq)\<close> raises on an empty sequence.\<close>

definition choice :: "'a list \<Rightarrow> rng \<Rightarrow> py_error + ('a \<times> rng)" where
  "choice xs g =
     (if xs = [] then Inl IndexError
      else case randbelow (length xs) g of (r, g') \<Rightarrow> Inr (xs ! r, g'))"

text \<open>
  \<^verbatim>\<open>random.shuffle(x)\<close>:
  \<^verbatim>\<open>
  for i in reversed(range(1, len(x))):
      j = randbelow(i + 1)
      x[i], x[j] = x[j], x[i]
  \<close>
\<close>

fun shuffle_loop :: "nat \<Rightarrow> 'a list \<Rightarrow> rng \<Rightarrow> 'a list \<times> rng" where
  "shuffle_loop 0 xs g = (xs, g)"
| "shuffle_loop (Suc i) xs g =
     (case randbelow (Suc i + 1) g of
        (j, g') \<Rightarrow> shuffle_loop i (xs[Suc i := xs ! j, j := xs ! Suc i]) g')"

definition shuffle :: "'a list \<Rightarrow> rng \<Rightarrow> 'a list \<times> rng" where
  "shuffle xs g = shuffle_loop (length xs - 1) xs g"

section \<open>SynthesicOpenSubtitlesTransform.generate_synthesic_sample\<close>

text \<open>
  The globals of the script that the sample pipeline reads: the two pools of the
  synthetic transform, the sentence splitter, and the subword tokenizer (a parameter:
  the pieces of a text as vocabulary ids, without special tokens); with them, the
  Unicode database of the interpreter.
\<close>

record env =
  synthesic_toxic :: "ustring list"
  synthesic_non_toxic :: "ustring list"
  sent_tokenize :: splitter
  tokenizer_pieces :: "ustring \<Rightarrow> nat list"
  unicode_db :: ucd

text \<open>\<^verbatim>\<open>for i in range(k): texts.append(random.choice(pool))\<close>.\<close>

fun append_choices :: "nat \<Rightarrow> ustring list \<Rightarrow> ustring list \<Rightarrow> rng \<Rightarrow> py_error + (ustring list \<times> rng)" where
  "append_choices 0 pool texts g = Inr (texts, g)"
| "append_choices (Suc k) pool texts g =
     (case choice pool g of
        Inl e \<Rightarrow> Inl e
      | Inr (x, g') \<Rightarrow> append_choices k pool (texts @ [x]) g')"

definition generate_synthesic_sample :: "env \<Rightarrow> ustring \<Rightarrow> int \<Rightarrow> rng \<Rightarrow> py_error + (ustring \<times> rng)" where
  "generate_synthesic_sample E txt toxic g =
     (let texts = [txt] in
      case
        (if toxic = 0 then
           (case randint 1 5 g of (k, g1) \<Rightarrow> append_choices k (synthesic_non_toxic E) texts g1)
         else
           (case randint 0 2 g of (k0, g1) \<Rightarrow>
            case append_choices k0 (synthesic_non_toxic E) texts g1 of
              Inl e \<Rightarrow> Inl e
            | Inr (texts1, g2) \<Rightarrow>
               (case randint 1 3 g2 of (k1, g3) \<Rightarrow>
                append_choices k1 (synthesic_toxic E) texts1 g3)))
      of
        Inl e \<Rightarrow> Inl e
      | Inr (texts2, g4) \<Rightarrow>
         (case shuffle texts2 g4 of (shuffled, g5) \<Rightarrow> Inr (join [32] shuffled, g5)))"

section \<open>The transforms\<close>

text \<open>
  \<^verbatim>\<open>BasicTransform.__call__\<close> of the external library albumentations, by its documented
  contract: the transform is applied when \<^verbatim>\<open>random.random() < self.p\<close> or \<^verbatim>\<open>always_apply\<close>
  is set, and otherwise the data is returned as it came.
\<close>

definition transform_call ::
  "real \<Rightarrow> bool \<Rightarrow> ('a \<Rightarrow> rng \<Rightarrow> py_error + ('a \<times> rng)) \<Rightarrow> 'a \<Rightarrow> rng \<Rightarrow> py_error + ('a \<times> rng)" where
  "transform_call p always_apply app d g =
     (case random_unit g of
        (r, g') \<Rightarrow> if r < p \<or> always_apply then app d g' else Inr (d, g'))"

text \<open>
  The \<^verbatim>\<open>apply\<close> methods of the five cleaning transforms, on the pair (text, lang); the
  first argument is the Unicode database.
\<close>

definition ExcludeUsersMentioned_apply :: "ucd \<Rightarrow> ustring \<times> ustring \<Rightarrow> ustring \<times> ustring" where
  "ExcludeUsersMentioned_apply U d = (sub_spaces U (sub_tag U 64 (fst d)), snd d)"

definition ExcludeUrls_apply :: "ucd \<Rightarrow> ustring \<times> ustring \<Rightarrow> ustring \<times> ustring" where
  "ExcludeUrls_apply U d = (sub_spaces U (sub_url U (fst d)), snd d)"

definition ExcludeNumbers_apply :: "ucd \<Rightarrow> ustring \<times> ustring \<Rightarrow> ustring \<times> ustring" where
  "ExcludeNumbers_apply U d = (sub_spaces U (sub_digits (fst d)), snd d)"

definition ExcludeHashtags_apply :: "ucd \<Rightarrow> ustring \<times> ustring \<Rightarrow> ustring \<times> ustring" where
  "ExcludeHashtags_apply U d = (sub_spaces U (sub_tag U 35 (fst d)), snd d)"

definition ExcludeDuplicateSentences_apply ::
  "ucd \<Rightarrow> splitter \<Rightarrow> ustring \<times> ustring \<Rightarrow> ustring \<times> ustring" where
  "ExcludeDuplicateSentences_apply U st d =
     (join [32] (exclude_duplicate_loop U [] (get_sentences st (fst d) (snd d))), snd d)"

definition then_call ::
  "py_error + ('a \<times> rng) \<Rightarrow> ('a \<Rightarrow> rng \<Rightarrow> py_error + ('b \<times> rng)) \<Rightarrow> py_error + ('b \<times> rng)" where
  "then_call m f = (case m of Inl e \<Rightarrow> Inl e | Inr (x, g) \<Rightarrow> f x g)"

definition pure_apply :: "('a \<Rightarrow> 'a) \<Rightarrow> 'a \<Rightarrow> rng \<Rightarrow> py_error + ('a \<times> rng)" where
  "pure_apply f d g = Inr (f d, g)"

text \<open>
  \<^verbatim>\<open>train_transforms\<close>: \<^verbatim>\<open>albumentations.Compose([...], p=1.0)\<close>. The composition draws once
  for itself, then calls the five transforms in order, each with \<^verbatim>\<open>p=0.95\<close>.
\<close>

definition train_transforms :: "env \<Rightarrow> ustring \<times> ustring \<Rightarrow> rng \<Rightarrow> py_error + ((ustring \<times> ustring) \<times> rng)" where
  "train_transforms E d g =
     (let U = unicode_db E in
      case random_unit g of
        (r, g0) \<Rightarrow>
          if r < 1 then
            then_call (then_call (then_call (then_call
              (transform_call 0.95 False (pure_apply (ExcludeUsersMentioned_apply U)) d g0)
              (transform_call 0.95 False (pure_apply (ExcludeUrls_apply U))))
              (transform_call 0.95 False (pure_apply (ExcludeNumbers_apply U))))
              (transform_call 0.95 False (pure_apply (ExcludeHashtags_apply U))))
              (transform_call 0.95 False (pure_apply (ExcludeDuplicateSentences_apply U (sent_tokenize E))))
          else Inr (d, g0))"

text \<open>
  \<^verbatim>\<open>synthesic_transforms\<close>: \<^verbatim>\<open>SynthesicOpenSubtitlesTransform(p=0.5)\<close>, whose \<^verbatim>\<open>apply\<close>
  replaces the text of the pair (text, toxic) by \<^verbatim>\<open>generate_synthesic_sample\<close>.
\<close>

definition SynthesicOpenSubtitles_apply :: "env \<Rightarrow> ustring \<times> int \<Rightarrow> rng \<Rightarrow> py_error + ((ustring \<times> int) \<times> rng)" where
  "SynthesicOpenSubtitles_apply E d g =
     (case generate_synthesic_sample E (fst d) (snd d) g of
        Inl e \<Rightarrow> Inl e
      | Inr (txt, g') \<Rightarrow> Inr ((txt, snd d), g'))"

definition synthesic_transforms :: "env \<Rightarrow> ustring \<times> int \<Rightarrow> rng \<Rightarrow> py_error + ((ustring \<times> int) \<times> rng)" where
  "synthesic_transforms E d g = transform_call 0.5 False (SynthesicOpenSubtitles_apply E) d g"

section \<open>Tokenization and DatasetRetriever\<close>

definition MAX_LENGTH :: nat where
  "MAX_LENGTH = 224"

text \<open>The special tokens of the XLM-RoBERTa vocabulary.\<close>

definition bos_token_id :: nat where "bos_token_id = 0"
definition pad_token_id :: nat where "pad_token_id = 1"
definition eos_token_id :: nat where "eos_token_id = 2"

text \<open>
  \<^verbatim>\<open>tokenizer.encode_plus(text, add_special_tokens=True, max_length=..., pad_to_max_length=True)\<close>
  of the external library transformers, by its documented contract: the pieces of the
  text are cut at the end until they fit with the two special tokens, \<^verbatim>\<open><s>\<close> is put
  before them and \<^verbatim>\<open></s>\<close> after them, and the sequence is padded on the right with
  \<^verbatim>\<open><pad>\<close>; the attention mask is 1 on the tokens and 0 on the padding.
\<close>

definition encode_plus :: "(ustring \<Rightarrow> nat list) \<Rightarrow> ustring \<Rightarrow> nat \<Rightarrow> nat list \<times> nat list" where
  "encode_plus pcs txt max_length =
     (let ids = pcs txt;
          total_len = length ids + 2;
          ids1 = (if total_len > max_length then take (length ids - (total_len - max_length)) ids
                  else ids);
          input_ids = [bos_token_id] @ ids1 @ [eos_token_id];
          difference = max_length - length input_ids
      in (input_ids @ replicate difference pad_token_id,
          replicate (length input_ids) 1 @ replicate difference 0))"

definition get_tokens :: "env \<Rightarrow> ustring \<Rightarrow> nat list \<times> nat list" where
  "get_tokens E txt = encode_plus (tokenizer_pieces E) txt MAX_LENGTH"

record dataset =
  test :: bool
  labels_or_ids :: "int list"
  comment_texts :: "ustring list"
  langs :: "ustring list"
  use_train_transforms :: bool

text \<open>Indexing an array: \<^verbatim>\<open>a[idx]\<close> raises when the index is out of range.\<close>

definition item :: "'a list \<Rightarrow> nat \<Rightarrow> py_error + 'a" where
  "item xs idx = (if idx < length xs then Inr (xs ! idx) else Inl IndexError)"

text \<open>Reading a local variable that was never bound.\<close>

definition bound :: "'a option \<Rightarrow> py_error + 'a" where
  "bound v = (case v of None \<Rightarrow> Inl UnboundLocalError | Some x \<Rightarrow> Inr x)"

type_synonym sample = "int \<times> nat list \<times> nat list"

text \<open>
  The tail of \<^verbatim>\<open>__getitem__\<close>, after the \<^verbatim>\<open>if self.use_train_transforms\<close> block:
  \<^verbatim>\<open>
  tokens, attention_mask = self.get_tokens(str(text))
  if self.test is False:
      return target, tokens, attention_mask
  return self.labels_or_ids[idx], tokens, attention_mask
  \<close>
\<close>

definition getitem_tail :: "env \<Rightarrow> dataset \<Rightarrow> nat \<Rightarrow> int option \<Rightarrow> ustring \<Rightarrow> rng \<Rightarrow> py_error + (sample \<times> rng)" where
  "getitem_tail E d idx target txt g =
     (case get_tokens E txt of
        (tokens, attention_mask) \<Rightarrow>
          if test d = False then
            (case bound target of
               Inl e \<Rightarrow> Inl e
             | Inr t \<Rightarrow> Inr ((t, tokens, attention_mask), g))
          else
            (case item (labels_or_ids d) idx of
               Inl e \<Rightarrow> Inl e
             | Inr i \<Rightarrow> Inr ((i, tokens, attention_mask), g)))"

text \<open>
  \<^verbatim>\<open>DatasetRetriever.__getitem__\<close>. \<^verbatim>\<open>label\<close> and \<^verbatim>\<open>target\<close> are bound only when
  \<^verbatim>\<open>self.test is False\<close>.
\<close>

definition getitem :: "env \<Rightarrow> dataset \<Rightarrow> nat \<Rightarrow> rng \<Rightarrow> py_error + (sample \<times> rng)" where
  "getitem E d idx g =
     (case item (comment_texts d) idx of
        Inl e \<Rightarrow> Inl e
      | Inr txt \<Rightarrow>
     (case item (langs d) idx of
        Inl e \<Rightarrow> Inl e
      | Inr lang \<Rightarrow>
     (case (if test d = False then map_sum id Some (item (labels_or_ids d) idx) else Inr None) of
        Inl e \<Rightarrow> Inl e
      | Inr label \<Rightarrow>
          let target = label in
          if use_train_transforms d then
            (case train_transforms E (txt, lang) g of
               Inl e \<Rightarrow> Inl e
             | Inr ((txt1, _), g1) \<Rightarrow>
                (case get_tokens E txt1 of
                   (tokens, attention_mask) \<Rightarrow>
                     let token_length = sum_list attention_mask in
                     if token_length < 60 then
                       (case bound label of
                          Inl e \<Rightarrow> Inl e
                        | Inr l \<Rightarrow>
                           (case synthesic_transforms E (txt1, l) g1 of
                              Inl e \<Rightarrow> Inl e
                            | Inr ((txt2, _), g2) \<Rightarrow> getitem_tail E d idx target txt2 g2))
                     else
                       (case bound target of
                          Inl e \<Rightarrow> Inl e
                        | Inr t \<Rightarrow> Inr ((t, tokens, attention_mask), g1))))
          else getitem_tail E d idx target txt g)))"

section \<open>RocAucMeter and AverageMeter\<close>

record roc_auc_meter =
  y_true :: "int list"
  y_pred :: "real list"
  score :: real

text \<open>
  \<^verbatim>\<open>RocAucMeter.reset\<close>:
  \<^verbatim>\<open>
  self.y_true = np.array([0, 1])
  self.y_pred = np.array([0.5, 0.5])
  self.score = 0
  \<close>
  and \<^verbatim>\<open>__init__\<close>, which only calls it.
\<close>

definition RocAucMeter_reset :: "roc_auc_meter \<Rightarrow> roc_auc_meter" where
  "RocAucMeter_reset m = m\<lparr>y_true := [0, 1], y_pred := [1/2, 1/2], score := 0\<rparr>"

definition RocAucMeter_init :: roc_auc_meter where
  "RocAucMeter_init = RocAucMeter_reset \<lparr>y_true = [], y_pred = [], score = 0\<rparr>"

definition RocAucMeter_avg :: "roc_auc_meter \<Rightarrow> real" where
  "RocAucMeter_avg m = score m"

text \<open>
  The class-1 column of \<^verbatim>\<open>softmax(y_pred, dim=1)\<close> on a row of two logits, and the
  slice \<^verbatim>\<open>a[-10000:]\<close> (the whole array when it has fewer than 10000 elements).
\<close>

definition softmax1 :: "real \<times> real \<Rightarrow> real" where
  "softmax1 z = exp (snd z) / (exp (fst z) + exp (snd z))"

definition last_10000 :: "'a list \<Rightarrow> 'a list" where
  "last_10000 xs = drop (length xs - 10000) xs"

text \<open>
  \<^verbatim>\<open>RocAucMeter.update\<close>. \<^verbatim>\<open>sklearn.metrics.roc_auc_score\<close> is the parameter \<open>auc\<close>; it
  raises when its arguments do not determine a score. The two arrays are extended
  before it is called, so they stay extended when it raises: the result is the meter
  after the call and the exception, if any.
\<close>

definition RocAucMeter_update ::
  "(int list \<Rightarrow> real list \<Rightarrow> py_error + real) \<Rightarrow> roc_auc_meter \<Rightarrow> int list \<Rightarrow> (real \<times> real) list
     \<Rightarrow> roc_auc_meter \<times> py_error option" where
  "RocAucMeter_update auc m yt logits =
     (let m1 = m\<lparr>y_true := y_true m @ yt, y_pred := y_pred m @ map softmax1 logits\<rparr> in
      case auc (last_10000 (y_true m1)) (last_10000 (y_pred m1)) of
        Inl e \<Rightarrow> (m1, Some e)
      | Inr s \<Rightarrow> (m1\<lparr>score := s\<rparr>, None))"

text \<open>A sequence of \<^verbatim>\<open>update\<close> calls on one meter; it ends at the first that raises.\<close>

fun RocAucMeter_updates ::
  "(int list \<Rightarrow> real list \<Rightarrow> py_error + real) \<Rightarrow> roc_auc_meter \<Rightarrow> (int list \<times> (real \<times> real) list) list
     \<Rightarrow> roc_auc_meter \<times> py_error option" where
  "RocAucMeter_updates auc m [] = (m, None)"
| "RocAucMeter_updates auc m (b # bs) =
     (case RocAucMeter_update auc m (fst b) (snd b) of
        (m1, Some e) \<Rightarrow> (m1, Some e)
      | (m1, None) \<Rightarrow> RocAucMeter_updates auc m1 bs)"

text \<open>
  The area under the ROC curve in exact arithmetic, for the worked examples: the share
  of (positive, negative) pairs that the scores order correctly, a tie counting half.
  It is undefined, and the library raises, unless both classes are present.
\<close>

definition exact_roc_auc :: "int list \<Rightarrow> real list \<Rightarrow> py_error + real" where
  "exact_roc_auc ys ps =
     (let pos = map snd (filter (\<lambda>yp. fst yp = 1) (zip ys ps));
          neg = map snd (filter (\<lambda>yp. fst yp = 0) (zip ys ps))
      in if length ys \<noteq> length ps \<or> pos = [] \<or> neg = [] \<or> list_ex (\<lambda>y. y \<noteq> 0 \<and> y \<noteq> 1) ys
         then Inl ValueError
         else Inr (sum_list (map (\<lambda>p. sum_list (map (\<lambda>n. if n < p then 1 else if n = p then 1/2 else 0) neg)) pos)
                   / (real (length pos) * real (length neg))))"

record average_meter =
  val :: real
  avg :: real
  sum_m :: real
  count_m :: nat

definition AverageMeter_reset :: "average_meter \<Rightarrow> average_meter" where
  "AverageMeter_reset m = m\<lparr>val := 0, avg := 0, sum_m := 0, count_m := 0\<rparr>"

definition AverageMeter_init :: average_meter where
  "AverageMeter_init = AverageMeter_reset \<lparr>val = 0, avg = 0, sum_m = 0, count_m = 0\<rparr>"

text \<open>
  \<^verbatim>\<open>AverageMeter.update\<close>; the division \<^verbatim>\<open>self.sum / self.count\<close> raises on a zero count.
\<close>

definition AverageMeter_update :: "average_meter \<Rightarrow> real \<Rightarrow> nat \<Rightarrow> py_error + average_meter" where
  "AverageMeter_update m v n =
     (let m1 = m\<lparr>val := v, sum_m := sum_m m + v * real n, count_m := count_m m + n\<rparr> in
      if count_m m1 = 0 then Inl ZeroDivisionError
      else Inr (m1\<lparr>avg := sum_m m1 / real (count_m m1)\<rparr>))"

section \<open>TPUFitter.train_one_epoch\<close>

record config =
  batch_size :: nat
  verbose :: bool
  verbose_step :: nat
  step_scheduler :: bool

record batch =
  targets :: "int list"
  inputs :: "nat list list"
  attention_masks :: "nat list list"

text \<open>
  The classifier, the optimizer and the scheduler belong to external libraries. They
  are abstract states \<open>'m\<close>, \<open>'o\<close>, \<open>'s\<close> with the operations the loop calls:
  the forward pass (loss and logits), \<^verbatim>\<open>loss.backward(); optimizer.step();
  optimizer.zero_grad()\<close>, and \<^verbatim>\<open>scheduler.step()\<close>; \<^verbatim>\<open>roc_auc_score\<close> goes with them.
\<close>

record ('m, 'o, 's) learner =
  forward :: "'m \<Rightarrow> batch \<Rightarrow> real \<times> (real \<times> real) list"
  backward_step :: "'m \<Rightarrow> 'o \<Rightarrow> batch \<Rightarrow> 'm \<times> 'o"
  scheduler_step :: "'s \<Rightarrow> 'o \<Rightarrow> 's \<times> 'o"
  roc_auc_score :: "int list \<Rightarrow> real list \<Rightarrow> py_error + real"

datatype log_line = TrainStep nat real real

record ('m, 'o, 's) tpu_fitter =
  model :: 'm
  model_training :: bool
  optimizer :: 'o
  scheduler :: 's
  final_scores :: roc_auc_meter
  log_file :: "log_line list"

text \<open>
  \<^verbatim>\<open>
  with01 = sum(targets)
  if with01 < self.config.batch_size*0.15:
      continue
  \<close>
  The product is taken in exact arithmetic.
\<close>

definition skipped :: "config \<Rightarrow> batch \<Rightarrow> bool" where
  "skipped cfg b = (real_of_int (sum_list (targets b)) < real (batch_size cfg) * 0.15)"

text \<open>
  The log line of a step, written before the batch is looked at; \<^verbatim>\<open>step % verbose_step\<close>
  raises when \<^verbatim>\<open>verbose_step\<close> is zero.
\<close>

definition log_step ::
  "config \<Rightarrow> ('m, 'o, 's) tpu_fitter \<Rightarrow> average_meter \<Rightarrow> nat \<Rightarrow> py_error + ('m, 'o, 's) tpu_fitter" where
  "log_step cfg T losses step =
     (if verbose cfg then
        (if verbose_step cfg = 0 then Inl ZeroDivisionError
         else if step mod verbose_step cfg = 0 then
           Inr (T\<lparr>log_file := log_file T @ [TrainStep step (avg losses) (RocAucMeter_avg (final_scores T))]\<rparr>)
         else Inr T)
      else Inr T)"

text \<open>The body of the loop of \<^verbatim>\<open>train_one_epoch\<close>, on the fitter and the meter \<^verbatim>\<open>losses\<close>.\<close>

definition train_step ::
  "('m, 'o, 's) learner \<Rightarrow> config \<Rightarrow> ('m, 'o, 's) tpu_fitter \<times> average_meter \<Rightarrow> nat \<Rightarrow> batch
     \<Rightarrow> py_error + (('m, 'o, 's) tpu_fitter \<times> average_meter)" where
  "train_step L cfg S step b =
     (case S of (T, losses) \<Rightarrow>
      case log_step cfg T losses step of
        Inl e \<Rightarrow> Inl e
      | Inr T1 \<Rightarrow>
          if skipped cfg b then Inr (T1, losses)
          else
            (case forward L (model T1) b of
               (loss, logits) \<Rightarrow>
                 let size0 = length (inputs b) in
                 (case RocAucMeter_update (roc_auc_score L) (final_scores T1) (targets b) logits of
                    (fs, Some e) \<Rightarrow> Inl e
                  | (fs, None) \<Rightarrow>
                     (case AverageMeter_update losses loss size0 of
                        Inl e \<Rightarrow> Inl e
                      | Inr losses1 \<Rightarrow>
                         (case backward_step L (model T1) (optimizer T1) b of
                            (m1, o1) \<Rightarrow>
                              (case (if step_scheduler cfg then scheduler_step L (scheduler T1) o1
                                     else (scheduler T1, o1)) of
                                 (s1, o2) \<Rightarrow>
                                   Inr (T1\<lparr>model := m1, optimizer := o2, scheduler := s1,
                                           final_scores := fs\<rparr>, losses1)))))))"

text \<open>\<^verbatim>\<open>for step, (targets, inputs, attention_masks) in zip(bar, train_loader)\<close>.\<close>

fun train_loop ::
  "('m, 'o, 's) learner \<Rightarrow> config \<Rightarrow> ('m, 'o, 's) tpu_fitter \<times> average_meter \<Rightarrow> (nat \<times> batch) list
     \<Rightarrow> py_error + (('m, 'o, 's) tpu_fitter \<times> average_meter)" where
  "train_loop L cfg S [] = Inr S"
| "train_loop L cfg S (sb # rest) =
     (case train_step L cfg S (fst sb) (snd sb) of
        Inl e \<Rightarrow> Inl e
      | Inr S1 \<Rightarrow> train_loop L cfg S1 rest)"

text \<open>
  \<^verbatim>\<open>train_one_epoch\<close>: the model is put in training mode, \<^verbatim>\<open>losses\<close> starts fresh, the
  progress bar has \<^verbatim>\<open>int(train_data_len / batch_size)\<close> steps, and the model is put back
  in evaluation mode at the end. The result is the fitter and \<^verbatim>\<open>losses\<close>.
\<close>

definition train_one_epoch ::
  "('m, 'o, 's) learner \<Rightarrow> config \<Rightarrow> nat \<Rightarrow> ('m, 'o, 's) tpu_fitter \<Rightarrow> batch list
     \<Rightarrow> py_error + (('m, 'o, 's) tpu_fitter \<times> average_meter)" where
  "train_one_epoch L cfg train_data_len T train_loader =
     (if batch_size cfg = 0 then Inl ZeroDivisionError
      else
        (case train_loop L cfg (T\<lparr>model_training := True\<rparr>, AverageMeter_init)
                (zip [0..<train_data_len div batch_size cfg] train_loader) of
           Inl e \<Rightarrow> Inl e
         | Inr (T1, losses) \<Rightarrow> Inr (T1\<lparr>model_training := False\<rparr>, losses)))"


section \<open>TPUFitter.fit: the checkpoint policy\<close>

text \<open>
  \<^verbatim>\<open>node-ckpts/\<close> as the list of the \<^verbatim>\<open>*.bin\<close> files it holds: \<open>BestModel i\<close> is the file
  \<^verbatim>\<open>best_model{i}.bin\<close>, for an integer \<open>i\<close>, and \<open>OtherBin\<close> any other name. \<^verbatim>\<open>save\<close>
  writes \<^verbatim>\<open>best_model{node_count}.bin\<close>, where \<^verbatim>\<open>node_count\<close> is the number of files found
  by \<^verbatim>\<open>glob\<close>: a new file when the name is free, an overwrite otherwise.
\<close>

datatype ckpt_file = BestModel int | OtherBin ustring

datatype fit_event = Save nat ckpt_file | RunInference nat

record fitter =
  best_score :: real
  epoch :: nat
  ckpts :: "ckpt_file list"
  events :: "fit_event list"

text \<open>\<^verbatim>\<open>TPUFitter.__init__\<close>: \<^verbatim>\<open>self.best_score = 0\<close>, \<^verbatim>\<open>self.epoch = 0\<close>.\<close>

definition TPUFitter_init :: "ckpt_file list \<Rightarrow> fitter" where
  "TPUFitter_init dir = \<lparr>best_score = 0, epoch = 0, ckpts = dir, events = []\<rparr>"

definition save :: "ckpt_file \<Rightarrow> ckpt_file list \<Rightarrow> ckpt_file list" where
  "save f dir = (if f \<in> set dir then dir else dir @ [f])"

text \<open>
  \<^verbatim>\<open>run_inference\<close> counts the files again and loads \<^verbatim>\<open>best_model{node_count-1}.bin\<close>:
  \<^verbatim>\<open>
  node_count = len(glob('node-ckpts/*.bin'))
  self.model.load_state_dict(torch.load(f'./node-ckpts/best_model{node_count-1}.bin'))
  \<close>
  The load raises when there is no such file. Otherwise the inference runs, recorded as
  an event. The result is the fitter after the call and the exception, if any.
\<close>

definition run_inference :: "fitter \<Rightarrow> fitter \<times> py_error option" where
  "run_inference F =
     (let node_count = int (length (ckpts F)) in
      if BestModel (node_count - 1) \<in> set (ckpts F)
      then (F\<lparr>events := events F @ [RunInference (epoch F)]\<rparr>, None)
      else (F, Some FileNotFoundError))"

text \<open>
  One pass of the body of the loop of \<^verbatim>\<open>fit\<close>, from the point where training and
  validation of the epoch have produced \<^verbatim>\<open>final_scores.avg\<close> (the argument \<open>v\<close>). The
  step of the scheduler and the lines written to the log are left out; the saves and the
  inference runs are recorded as events, with the epoch counter at that moment:
  \<^verbatim>\<open>
  self.epoch += 1
  if final_scores.avg > self.best_score:
      self.best_score = final_scores.avg
      node_count = len(glob('node-ckpts/*.bin'))
      self.save(f'node-ckpts/best_model{node_count}.bin')
      self.run_inference(test_loader=test_loader)
  \<close>
\<close>

definition fit_epoch :: "fitter \<Rightarrow> real \<Rightarrow> fitter \<times> py_error option" where
  "fit_epoch F v =
     (let F1 = F\<lparr>epoch := epoch F + 1\<rparr> in
      if v > best_score F1 then
        (let node_count = int (length (ckpts F1));
             f = BestModel node_count
         in run_inference
              (F1\<lparr>best_score := v,
                  ckpts := save f (ckpts F1),
                  events := events F1 @ [Save (epoch F1) f]\<rparr>))
      else (F1, None))"

text \<open>
  \<^verbatim>\<open>for e in range(self.config.n_epochs)\<close>, one validation score per epoch; an exception
  ends the loop.
\<close>

fun fit :: "fitter \<Rightarrow> real list \<Rightarrow> fitter \<times> py_error option" where
  "fit F [] = (F, None)"
| "fit F (v # vs) =
     (case fit_epoch F v of
        (F1, Some e) \<Rightarrow> (F1, Some e)
      | (F1, None) \<Rightarrow> fit F1 vs)"

fun is_save :: "fit_event \<Rightarrow> bool" where
  "is_save (Save _ _) = True"
| "is_save (RunInference _) = False"

definition n_saves :: "fitter \<Rightarrow> nat" where
  "n_saves F = length (filter is_save (events F))"

text \<open>
  A directory in which every \<^verbatim>\<open>best_model{i}.bin\<close> has \<open>i\<close> below the number of files, as
  in an empty directory and in one filled by earlier runs of this script only.
\<close>

fun numbered_below :: "int \<Rightarrow> ckpt_file \<Rightarrow> bool" where
  "numbered_below n (BestModel i) = (i < n)"
| "numbered_below n (OtherBin name) = True"

definition in_sequence :: "ckpt_file list \<Rightarrow> bool" where
  "in_sequence dir = list_all (numbered_below (int (length dir))) dir"

section \<open>Objects of the worked examples\<close>

text \<open>
  An excerpt of the Unicode database: the whitespace characters above ASCII are those
  of Python 3 (U+0085, U+00A0, U+1680, U+2000..U+200A, U+2028, U+2029, U+202F, U+205F,
  U+3000), and the alphanumeric ones are those of Latin-1 and the letters of the basic
  Cyrillic block.
\<close>

definition example_ucd :: ucd where
  "example_ucd =
     \<lparr>uni_space = (\<lambda>c. c \<in> set [133, 160, 5760, 8232, 8233, 8239, 8287, 12288]
                          \<or> (8192 \<le> c \<and> c \<le> 8202)),
      uni_alnum = (\<lambda>c. c \<in> set [170, 178, 179, 181, 185, 186, 188, 189, 190]
                          \<or> (192 \<le> c \<and> c \<le> 255 \<and> c \<noteq> 215 \<and> c \<noteq> 247)
                          \<or> (1040 \<le> c \<and> c \<le> 1103))\<rparr>"

text \<open>
  A tokenizer with one piece per character, two small pools, and generators whose raw
  draws are all equal. The theorems below hold for every tokenizer, pool and generator;
  these are the concrete ones on which they are run.
\<close>

definition example_pieces :: "ustring \<Rightarrow> nat list" where
  "example_pieces s = map (\<lambda>c. c + 4) s"

definition example_env :: env where
  "example_env =
     \<lparr>synthesic_toxic = [ustr ''you fool''],
      synthesic_non_toxic = [ustr ''nice day'', ustr ''thank you''],
      sent_tokenize = example_splitter,
      tokenizer_pieces = example_pieces,
      unicode_db = example_ucd\<rparr>"

definition const_rng :: "nat \<Rightarrow> rng" where
  "const_rng n = (\<lambda>i. n)"

definition example_dataset :: dataset where
  "example_dataset =
     \<lparr>test = False, labels_or_ids = [1, 0], comment_texts = [ustr ''so short'', []],
      langs = [ustr ''en'', ustr ''tr''], use_train_transforms = True\<rparr>"

section \<open>Notions used to state and prove the properties of clean_text\<close>

text \<open>
  The elements of a list at the positions where they occur for the first time, in the
  order of these positions.
\<close>

definition first_occurrences :: "'a list \<Rightarrow> 'a list" where
  "first_occurrences xs =
     map (\<lambda>i. xs ! i) (filter (\<lambda>i. xs ! i \<notin> set (take i xs)) [0..<length xs])"

text \<open>
  A scan for the tag pattern that reads the text once, from left to right. The flag
  says whether the tag character has been seen in the current run of non-whitespace
  characters; a word character read while the flag is set ends a match.
\<close>

fun tagscan :: "ucd \<Rightarrow> nat \<Rightarrow> bool \<Rightarrow> ustring \<Rightarrow> bool" where
  "tagscan U t a [] = False"
| "tagscan U t a (c # cs) =
     (if is_space U c then tagscan U t False cs
      else if a \<and> is_word U c then True
      else tagscan U t (a \<or> c = t) cs)"

text \<open>A splitter whose sentences are all slices of the text it is given.\<close>

definition slicing :: "splitter \<Rightarrow> bool" where
  "slicing st = (\<forall>txt language. \<forall>s \<in> set (st txt language). sublist s txt)"

text \<open>
  \<^verbatim>\<open>TrainGlobalConfig\<close> of the script, and a small learner for the worked examples: its
  model and optimizer count the optimizer steps taken, its scheduler counts its own
  steps, and its forward pass returns loss 0 and the logits (0, 0) for every sample.
\<close>

definition TrainGlobalConfig :: config where
  "TrainGlobalConfig = \<lparr>batch_size = 7, verbose = True, verbose_step = 50, step_scheduler = False\<rparr>"

definition example_learner :: "(nat, nat, nat) learner" where
  "example_learner =
     \<lparr>forward = (\<lambda>m b. (0, map (\<lambda>x. (0, 0)) (inputs b))),
      backward_step = (\<lambda>m opt b. (m + 1, opt + 1)),
      scheduler_step = (\<lambda>s opt. (s + 1, opt)),
      roc_auc_score = exact_roc_auc\<rparr>"

definition example_fitter :: "(nat, nat, nat) tpu_fitter" where
  "example_fitter =
     \<lparr>model = 0, model_training = False, optimizer = 0, scheduler = 0,
      final_scores = RocAucMeter_init, log_file = []\<rparr>"

definition one_toxic_batch :: batch where
  "one_toxic_batch =
     \<lparr>targets = [0, 0, 1, 0, 0, 0, 0], inputs = replicate 7 [], attention_masks = replicate 7 []\<rparr>"

definition two_toxic_batch :: batch where
  "two_toxic_batch =
     \<lparr>targets = [0, 1, 1, 0, 0, 0, 0], inputs = replicate 7 [], attention_masks = replicate 7 []\<rparr>"

section \<open>Properties of the checkpoint policy\<close>

lemma in_sequence_free: "in_sequence dir \<Longrightarrow> BestModel (int (length dir)) \<notin> set dir"
proof
  assume a: "in_sequence dir" and b: "BestModel (int (length dir)) \<in> set dir"
  from a b have "numbered_below (int (length dir)) (BestModel (int (length dir)))"
    unfolding in_sequence_def list_all_iff by blast
  then show False by simp
qed

lemma numbered_below_mono: "numbered_below n f \<Longrightarrow> n \<le> m \<Longrightarrow> numbered_below m f"
  by (cases f) auto

lemma in_sequence_save:
  assumes "in_sequence dir"
  shows "save (BestModel (int (length dir))) dir = dir @ [BestModel (int (length dir))]"
    and "in_sequence (save (BestModel (int (length dir))) dir)"
proof -
  show s: "save (BestModel (int (length dir))) dir = dir @ [BestModel (int (length dir))]"
    using in_sequence_free[OF assms] by (simp add: save_def)
  have "\<forall>f \<in> set dir. numbered_below (int (length dir) + 1) f"
    using assms numbered_below_mono[of "int (length dir)" _ "int (length dir) + 1"]
    unfolding in_sequence_def list_all_iff by auto
  then show "in_sequence (save (BestModel (int (length dir))) dir)"
    unfolding s in_sequence_def list_all_iff by (auto simp: add.commute)
qed

text \<open>
  In a directory that is in sequence the save writes a new file, and the inference that
  follows loads this file.
\<close>

lemma fit_epoch_in_sequence:
  assumes "in_sequence (ckpts F)"
  shows "fit_epoch F v =
     (if v > best_score F then
        (F\<lparr>epoch := epoch F + 1, best_score := v,
           ckpts := ckpts F @ [BestModel (int (length (ckpts F)))],
           events := events F @ [Save (epoch F + 1) (BestModel (int (length (ckpts F)))),
                                 RunInference (epoch F + 1)]\<rparr>, None)
      else (F\<lparr>epoch := epoch F + 1\<rparr>, None))"
  using in_sequence_save(1)[OF assms]
  by (simp add: fit_epoch_def run_inference_def Let_def)

lemma fit_epoch_keeps_in_sequence:
  assumes "in_sequence (ckpts F)"
  shows "snd (fit_epoch F v) = None \<and> in_sequence (ckpts (fst (fit_epoch F v)))"
  using in_sequence_save[OF assms] assms by (simp add: fit_epoch_in_sequence)

lemma fit_in_sequence:
  "in_sequence (ckpts F) \<Longrightarrow> snd (fit F vs) = None \<and> in_sequence (ckpts (fst (fit F vs)))"
proof (induction vs arbitrary: F)
  case Nil
  then show ?case by simp
next
  case (Cons v vs)
  obtain F1 r where e: "fit_epoch F v = (F1, r)" by (cases "fit_epoch F v")
  from fit_epoch_keeps_in_sequence[OF Cons.prems, of v] e
  have r: "r = None" and s: "in_sequence (ckpts F1)" by simp_all
  from Cons.IH[OF s] e r show ?case by simp
qed

lemma fit_append:
  "fit F (vs @ ws) = (case fit F vs of (F1, Some e) \<Rightarrow> (F1, Some e) | (F1, None) \<Rightarrow> fit F1 ws)"
  by (induction vs arbitrary: F) (auto split: prod.splits option.splits)

lemma fit_epoch_best_score:
  "fit_epoch F v = (F1, None) \<Longrightarrow> best_score F1 = max (best_score F) v \<and> epoch F1 = epoch F + 1"
  by (auto simp: fit_epoch_def run_inference_def Let_def split: if_splits)

lemma best_score_fit:
  "fit F vs = (F1, None) \<Longrightarrow>
     best_score F1 = Max (set (best_score F # vs)) \<and> epoch F1 = epoch F + length vs"
proof (induction vs arbitrary: F)
  case Nil
  then show ?case by simp
next
  case (Cons v vs)
  obtain F2 r where e: "fit_epoch F v = (F2, r)" by (cases "fit_epoch F v")
  with Cons.prems have r: "r = None" and f: "fit F2 vs = (F1, None)"
    by (auto split: option.splits)
  from fit_epoch_best_score e r
  have step: "best_score F2 = max (best_score F) v" "epoch F2 = epoch F + 1" by auto
  have "Max (insert (max (best_score F) v) (set vs)) = Max (insert (best_score F) (insert v (set vs)))"
    by (cases "vs = []") (simp_all add: max.assoc)
  with Cons.IH[OF f] step show ?case by simp
qed

text \<open>The save is recorded before the inference runs, whether or not the inference fails.\<close>

lemma n_saves_fit_epoch:
  "n_saves (fst (fit_epoch F v)) = (if v > best_score F then Suc (n_saves F) else n_saves F)"
  by (simp add: fit_epoch_def run_inference_def n_saves_def Let_def)

lemma fit_epoch_error: "snd (fit_epoch F v) = Some e \<Longrightarrow> e = FileNotFoundError"
  by (auto simp: fit_epoch_def run_inference_def Let_def split: if_splits)

lemma fit_error: "snd (fit F vs) = Some e \<Longrightarrow> e = FileNotFoundError"
proof (induction vs arbitrary: F)
  case Nil
  then show ?case by simp
next
  case (Cons v vs)
  obtain F2 r where f: "fit_epoch F v = (F2, r)" by (cases "fit_epoch F v")
  show ?case
  proof (cases r)
    case None
    with Cons f show ?thesis by simp
  next
    case (Some e')
    with Cons.prems f have "e' = e" by simp
    with fit_epoch_error[of F v e] f Some show ?thesis by simp
  qed
qed

text \<open>
  Claim C4, as amended. An epoch of \<^verbatim>\<open>fit\<close> that is reached saves a checkpoint exactly
  when its validation score is strictly above the best score seen so far, which is the
  largest of the initial \<^verbatim>\<open>best_score\<close> and the scores of the earlier epochs. The only
  exception \<^verbatim>\<open>fit\<close> can end with on this path is the one of the load in \<^verbatim>\<open>run_inference\<close>.
  When the directory is in sequence (every \<^verbatim>\<open>best_model{i}.bin\<close> in it has \<open>i\<close> below the
  number of files, as in an empty directory), no epoch raises, each save writes a new
  file and the inference runs right after it. A fresh fitter starts with
  \<^verbatim>\<open>best_score = 0\<close>, so its first epoch with a positive score saves: on such a
  directory the scores 0.80 then 0.85 give two saves, one after each epoch, and 0.80
  then 0.75 give one save, after the first epoch; a fitter whose best score is already
  0.80 saves once on 0.85 and not at all on 0.75. On a directory that holds only
  \<^verbatim>\<open>best_model1.bin\<close> the first save overwrites this file, the inference looks for
  \<^verbatim>\<open>best_model0.bin\<close> and raises, and the second epoch is never reached.
\<close>

theorem fit_saves_on_improvement:
  "(fit F vs = (F1, None) \<longrightarrow>
      n_saves (fst (fit F (vs @ [v]))) =
        (if v > Max (set (best_score F # vs)) then n_saves F1 + 1 else n_saves F1))
   \<and> (snd (fit F vs) = Some e \<longrightarrow> e = FileNotFoundError)
   \<and> (in_sequence (ckpts F) \<and> fit F vs = (F1, None) \<longrightarrow>
        fit F (vs @ [v]) =
          (if v > Max (set (best_score F # vs)) then
             (F1\<lparr>epoch := epoch F + length vs + 1, best_score := v,
                 ckpts := ckpts F1 @ [BestModel (int (length (ckpts F1)))],
                 events := events F1 @
                   [Save (epoch F + length vs + 1) (BestModel (int (length (ckpts F1)))),
                    RunInference (epoch F + length vs + 1)]\<rparr>, None)
           else (F1\<lparr>epoch := epoch F + length vs + 1\<rparr>, None)))
   \<and> (in_sequence (ckpts F) \<longrightarrow> snd (fit F vs) = None)
   \<and> best_score (TPUFitter_init dir) = 0
   \<and> (in_sequence dir \<longrightarrow>
        snd (fit (TPUFitter_init dir) [0.80, 0.85]) = None
      \<and> n_saves (fst (fit (TPUFitter_init dir) [0.80, 0.85])) = 2
      \<and> snd (fit (TPUFitter_init dir) [0.80, 0.75]) = None
      \<and> n_saves (fst (fit (TPUFitter_init dir) [0.80, 0.75])) = 1
      \<and> n_saves (fst (fit ((TPUFitter_init dir)\<lparr>best_score := 0.80\<rparr>) [0.85])) = 1
      \<and> n_saves (fst (fit ((TPUFitter_init dir)\<lparr>best_score := 0.80\<rparr>) [0.75])) = 0)
   \<and> fit (TPUFitter_init [BestModel 1]) [0.80, 0.85] =
       (\<lparr>best_score = 0.80, epoch = 1, ckpts = [BestModel 1], events = [Save 1 (BestModel 1)]\<rparr>,
        Some FileNotFoundError)"
proof -
  have 1: "n_saves (fst (fit F (vs @ [v]))) =
        (if v > Max (set (best_score F # vs)) then n_saves F1 + 1 else n_saves F1)"
    if f: "fit F vs = (F1, None)"
  proof -
    have "fit F (vs @ [v]) = fit_epoch F1 v"
      using f by (cases "fit_epoch F1 v") (auto simp: fit_append split: option.splits)
    with n_saves_fit_epoch[of F1 v] best_score_fit[OF f] show ?thesis by simp
  qed
  have 2: "e = FileNotFoundError" if "snd (fit F vs) = Some e"
    using that by (rule fit_error)
  have 3: "fit F (vs @ [v]) =
          (if v > Max (set (best_score F # vs)) then
             (F1\<lparr>epoch := epoch F + length vs + 1, best_score := v,
                 ckpts := ckpts F1 @ [BestModel (int (length (ckpts F1)))],
                 events := events F1 @
                   [Save (epoch F + length vs + 1) (BestModel (int (length (ckpts F1)))),
                    RunInference (epoch F + length vs + 1)]\<rparr>, None)
           else (F1\<lparr>epoch := epoch F + length vs + 1\<rparr>, None))"
    if s: "in_sequence (ckpts F)" and f: "fit F vs = (F1, None)"
  proof -
    have a: "fit F (vs @ [v]) = fit_epoch F1 v"
      using f by (cases "fit_epoch F1 v") (auto simp: fit_append split: option.splits)
    from fit_in_sequence[OF s, of vs] f have s1: "in_sequence (ckpts F1)" by simp
    show ?thesis
      unfolding a fit_epoch_in_sequence[OF s1] using best_score_fit[OF f] by simp
  qed
  have 4: "snd (fit F vs) = None" if "in_sequence (ckpts F)"
    using fit_in_sequence[OF that] by simp
  have 5: "snd (fit (TPUFitter_init dir) [0.80, 0.85]) = None
      \<and> n_saves (fst (fit (TPUFitter_init dir) [0.80, 0.85])) = 2
      \<and> snd (fit (TPUFitter_init dir) [0.80, 0.75]) = None
      \<and> n_saves (fst (fit (TPUFitter_init dir) [0.80, 0.75])) = 1
      \<and> n_saves (fst (fit ((TPUFitter_init dir)\<lparr>best_score := 0.80\<rparr>) [0.85])) = 1
      \<and> n_saves (fst (fit ((TPUFitter_init dir)\<lparr>best_score := 0.80\<rparr>) [0.75])) = 0"
    if s: "in_sequence dir"
  proof -
    let ?d1 = "dir @ [BestModel (int (length dir))]"
    have s1: "in_sequence ?d1" using in_sequence_save[OF s] by simp
    have a: "fit_epoch (TPUFitter_init dir) 0.80 =
        (\<lparr>best_score = 0.80, epoch = 1, ckpts = ?d1,
          events = [Save 1 (BestModel (int (length dir))), RunInference 1]\<rparr>, None)"
      using s by (simp add: fit_epoch_in_sequence TPUFitter_init_def)
    have b: "fit_epoch \<lparr>best_score = 0.80, epoch = 1, ckpts = ?d1,
          events = [Save 1 (BestModel (int (length dir))), RunInference 1]\<rparr> 0.85 =
        (\<lparr>best_score = 0.85, epoch = 2, ckpts = ?d1 @ [BestModel (int (length ?d1))],
          events = [Save 1 (BestModel (int (length dir))), RunInference 1,
                    Save 2 (BestModel (int (length ?d1))), RunInference 2]\<rparr>, None)"
      using s1 by (simp add: fit_epoch_in_sequence)
    have c: "fit_epoch \<lparr>best_score = 0.80, epoch = 1, ckpts = ?d1,
          events = [Save 1 (BestModel (int (length dir))), RunInference 1]\<rparr> 0.75 =
        (\<lparr>best_score = 0.80, epoch = 2, ckpts = ?d1,
          events = [Save 1 (BestModel (int (length dir))), RunInference 1]\<rparr>, None)"
      using s1 by (simp add: fit_epoch_in_sequence)
    have d: "fit_epoch ((TPUFitter_init dir)\<lparr>best_score := 0.80\<rparr>) 0.85 =
        (\<lparr>best_score = 0.85, epoch = 1, ckpts = ?d1,
          events = [Save 1 (BestModel (int (length dir))), RunInference 1]\<rparr>, None)"
      using s by (simp add: fit_epoch_in_sequence TPUFitter_init_def)
    have e: "fit_epoch ((TPUFitter_init dir)\<lparr>best_score := 0.80\<rparr>) 0.75 =
        (\<lparr>best_score = 0.80, epoch = 1, ckpts = dir, events = []\<rparr>, None)"
      using s by (simp add: fit_epoch_in_sequence TPUFitter_init_def)
    from a b c d e show ?thesis by (simp add: n_saves_def)
  qed
  have 6: "fit (TPUFitter_init [BestModel 1]) [0.80, 0.85] =
       (\<lparr>best_score = 0.80, epoch = 1, ckpts = [BestModel 1], events = [Save 1 (BestModel 1)]\<rparr>,
        Some FileNotFoundError)"
    by (simp add: TPUFitter_init_def fit_epoch_def run_inference_def save_def Let_def)
  show ?thesis using 1 2 3 4 5 6 by (simp add: TPUFitter_init_def)
qed

theorem fit_saves_on_improvement_witness:
  "in_sequence (ckpts (TPUFitter_init []))
   \<and> fit (TPUFitter_init []) [0.80] =
       (\<lparr>best_score = 0.80, epoch = 1, ckpts = [BestModel 0],
         events = [Save 1 (BestModel 0), RunInference 1]\<rparr>, None)
   \<and> fit (TPUFitter_init []) [0.80, 0.85] =
       (\<lparr>best_score = 0.85, epoch = 2, ckpts = [BestModel 0, BestModel 1],
         events = [Save 1 (BestModel 0), RunInference 1, Save 2 (BestModel 1), RunInference 2]\<rparr>,
        None)
   \<and> n_saves (fst (fit (TPUFitter_init []) [0.80, 0.85])) = 2
   \<and> in_sequence [BestModel 0, OtherBin (ustr ''last.bin'')]
   \<and> n_saves (fst (fit (TPUFitter_init [BestModel 0, OtherBin (ustr ''last.bin'')]) [0.80, 0.75])) = 1
   \<and> snd (fit (TPUFitter_init [BestModel 1]) [0.80, 0.85]) = Some FileNotFoundError"
proof -
  let ?F1 = "\<lparr>best_score = 0.80, epoch = 1, ckpts = [BestModel 0],
         events = [Save 1 (BestModel 0), RunInference 1]\<rparr>"
  have s: "in_sequence (ckpts (TPUFitter_init []))"
    by (simp add: in_sequence_def TPUFitter_init_def)
  have f: "fit (TPUFitter_init []) [0.80] = (?F1, None)"
    by (simp add: TPUFitter_init_def fit_epoch_def run_inference_def save_def Let_def)
  have d: "in_sequence [BestModel 0, OtherBin (ustr ''last.bin'')]"
    by (simp add: in_sequence_def)
  note t = fit_saves_on_improvement[where F = "TPUFitter_init []" and vs = "[0.80]" and v = "0.85"
      and ?F1.0 = ?F1 and e = FileNotFoundError
      and dir = "[BestModel 0, OtherBin (ustr ''last.bin'')]"]
  from t s f d show ?thesis
    by (simp add: TPUFitter_init_def fit_epoch_def run_inference_def save_def Let_def n_saves_def)
qed

text \<open>
  Claim C4 as stated fails on a fresh fitter, here with an empty directory: with the
  scores 0.80 then 0.85 there are two saves, not one, and with 0.80 then 0.75 there is
  one save, not none.
\<close>

theorem fit_fresh_scenario_counterexample:
  "fit (TPUFitter_init []) [0.80, 0.85] =
     (\<lparr>best_score = 0.85, epoch = 2, ckpts = [BestModel 0, BestModel 1],
       events = [Save 1 (BestModel 0), RunInference 1, Save 2 (BestModel 1), RunInference 2]\<rparr>,
      None)
   \<and> n_saves (fst (fit (TPUFitter_init []) [0.80, 0.85])) \<noteq> 1
   \<and> fit (TPUFitter_init []) [0.80, 0.75] =
     (\<lparr>best_score = 0.80, epoch = 2, ckpts = [BestModel 0],
       events = [Save 1 (BestModel 0), RunInference 1]\<rparr>, None)
   \<and> n_saves (fst (fit (TPUFitter_init []) [0.80, 0.75])) \<noteq> 0"
  by (simp add: TPUFitter_init_def n_saves_def fit_epoch_def run_inference_def Let_def save_def)

section \<open>Properties of the synthetic mixer\<close>

lemma randbelow_less: "0 < n \<Longrightarrow> fst (randbelow n g) < n"
  by (simp add: randbelow_def)

lemma randint_bounds:
  assumes "a \<le> b" and "randint a b g = (k, g')"
  shows "a \<le> k \<and> k \<le> b"
proof -
  have "g 0 mod (b - a + 1) < b - a + 1" by simp
  moreover have "k = a + g 0 mod (b - a + 1)"
    using assms(2) by (auto simp: randint_def randbelow_def)
  ultimately show ?thesis using assms(1) by linarith
qed

lemma choice_Inr:
  "pool \<noteq> [] \<Longrightarrow> \<exists>x g'. choice pool g = Inr (x, g') \<and> x \<in> set pool"
  by (simp add: choice_def randbelow_def)

lemma append_choices_Inr:
  "pool \<noteq> [] \<Longrightarrow>
     \<exists>picks g'. append_choices k pool texts g = Inr (texts @ picks, g')
        \<and> length picks = k \<and> set picks \<subseteq> set pool"
proof (induction k arbitrary: texts g)
  case 0
  then show ?case by simp
next
  case (Suc k)
  from choice_Inr[OF Suc.prems, of g] obtain x g1 where
    c: "choice pool g = Inr (x, g1)" and x: "x \<in> set pool" by blast
  from Suc.IH[OF Suc.prems, of "texts @ [x]" g1] obtain picks g' where
    r: "append_choices k pool (texts @ [x]) g1 = Inr ((texts @ [x]) @ picks, g')"
    and l: "length picks = k" and s: "set picks \<subseteq> set pool" by blast
  have "append_choices (Suc k) pool texts g = Inr (texts @ (x # picks), g')"
    using c r by simp
  moreover have "length (x # picks) = Suc k" using l by simp
  moreover have "set (x # picks) \<subseteq> set pool" using x s by simp
  ultimately show ?case by blast
qed

lemma append_choices_zero: "append_choices 0 pool texts g = Inr (texts, g)"
  by simp

lemma shuffle_loop_mset:
  "n < length xs \<Longrightarrow> mset (fst (shuffle_loop n xs g)) = mset xs"
proof (induction n arbitrary: xs g)
  case 0
  then show ?case by simp
next
  case (Suc n)
  obtain j g' where rb: "randbelow (Suc n + 1) g = (j, g')" by (cases "randbelow (Suc n + 1) g")
  have "j < Suc n + 1" using randbelow_less[of "Suc n + 1" g] rb by simp
  then have j: "j < length xs" using Suc.prems by simp
  let ?ys = "xs[Suc n := xs ! j, j := xs ! Suc n]"
  have m: "mset ?ys = mset xs" using mset_swap[of j xs "Suc n"] Suc.prems j by simp
  have "n < length ?ys" using Suc.prems by simp
  from Suc.IH[OF this, of g'] have "mset (fst (shuffle_loop n ?ys g')) = mset ?ys" .
  with m rb show ?case by simp
qed

lemma shuffle_mset: "mset (fst (shuffle xs g)) = mset xs"
proof (cases xs)
  case Nil
  then show ?thesis by (simp add: shuffle_def)
next
  case (Cons x ys)
  then show ?thesis unfolding shuffle_def by (intro shuffle_loop_mset) simp
qed

lemma sublist_join: "x \<in> set xs \<Longrightarrow> sublist x (join sep xs)"
proof (induction sep xs rule: join.induct)
  case (1 sep)
  then show ?case by simp
next
  case (2 sep y)
  then show ?case by simp
next
  case (3 sep y z zs)
  show ?case
  proof (cases "x = y")
    case True
    then show ?thesis by (simp add: sublist_append_rightI)
  next
    case False
    with 3 have "sublist x (join sep (z # zs))" by simp
    then show ?thesis by (simp add: sublist_append)
  qed
qed

lemma generate_non_toxic:
  assumes nt: "synthesic_non_toxic E \<noteq> []"
  shows "\<exists>fragments picks g'.
           generate_synthesic_sample E txt 0 g = Inr (join [32] fragments, g')
         \<and> mset fragments = mset (txt # picks)
         \<and> 1 \<le> length picks \<and> length picks \<le> 5
         \<and> set picks \<subseteq> set (synthesic_non_toxic E)"
proof -
  obtain k g1 where ri: "randint 1 5 g = (k, g1)" by (cases "randint 1 5 g")
  then have kb: "1 \<le> k \<and> k \<le> 5" using randint_bounds[of 1 5 g k g1] by simp
  from append_choices_Inr[OF nt, of k "[txt]" g1] obtain picks g2 where
    ac: "append_choices k (synthesic_non_toxic E) [txt] g1 = Inr ([txt] @ picks, g2)"
    and l: "length picks = k" and s: "set picks \<subseteq> set (synthesic_non_toxic E)" by blast
  obtain sh g3 where sf: "shuffle ([txt] @ picks) g2 = (sh, g3)" by (cases "shuffle ([txt] @ picks) g2")
  have m: "mset sh = mset (txt # picks)" using shuffle_mset[of "[txt] @ picks" g2] sf by simp
  have "generate_synthesic_sample E txt 0 g = Inr (join [32] sh, g3)"
    using ri ac sf by (simp add: generate_synthesic_sample_def)
  with m kb l s show ?thesis by blast
qed

lemma generate_toxic:
  assumes nt: "synthesic_non_toxic E \<noteq> []" and tx: "synthesic_toxic E \<noteq> []" and lab: "toxic \<noteq> 0"
  shows "\<exists>fragments picks0 picks1 g'.
           generate_synthesic_sample E txt toxic g = Inr (join [32] fragments, g')
         \<and> mset fragments = mset (txt # picks0 @ picks1)
         \<and> length picks0 \<le> 2 \<and> set picks0 \<subseteq> set (synthesic_non_toxic E)
         \<and> 1 \<le> length picks1 \<and> length picks1 \<le> 3 \<and> set picks1 \<subseteq> set (synthesic_toxic E)"
proof -
  obtain k0 g1 where r0: "randint 0 2 g = (k0, g1)" by (cases "randint 0 2 g")
  then have k0b: "k0 \<le> 2" using randint_bounds[of 0 2 g k0 g1] by simp
  from append_choices_Inr[OF nt, of k0 "[txt]" g1] obtain picks0 g2 where
    a0: "append_choices k0 (synthesic_non_toxic E) [txt] g1 = Inr ([txt] @ picks0, g2)"
    and l0: "length picks0 = k0" and s0: "set picks0 \<subseteq> set (synthesic_non_toxic E)" by blast
  obtain k1 g3 where r1: "randint 1 3 g2 = (k1, g3)" by (cases "randint 1 3 g2")
  then have k1b: "1 \<le> k1 \<and> k1 \<le> 3" using randint_bounds[of 1 3 g2 k1 g3] by simp
  from append_choices_Inr[OF tx, of k1 "[txt] @ picks0" g3] obtain picks1 g4 where
    a1: "append_choices k1 (synthesic_toxic E) ([txt] @ picks0) g3 = Inr (([txt] @ picks0) @ picks1, g4)"
    and l1: "length picks1 = k1" and s1: "set picks1 \<subseteq> set (synthesic_toxic E)" by blast
  let ?all = "([txt] @ picks0) @ picks1"
  obtain sh g5 where sf: "shuffle ?all g4 = (sh, g5)" by (cases "shuffle ?all g4")
  have m: "mset sh = mset (txt # picks0 @ picks1)" using shuffle_mset[of ?all g4] sf by simp
  have "generate_synthesic_sample E txt toxic g = Inr (join [32] sh, g5)"
    using lab r0 a0 r1 a1 sf by (simp add: generate_synthesic_sample_def)
  with m k0b l0 s0 k1b l1 s1 show ?thesis by blast
qed


text \<open>
  Claim C6. When the pools it draws from are not empty, \<^verbatim>\<open>generate_synthesic_sample\<close>
  returns the fragments joined by single spaces, where the fragments are a permutation
  of the original text and the sentences drawn: with label 0, between 1 and 5 sentences
  of the non-toxic pool; with any other label (label 1 in particular), between 0 and 2
  sentences of the non-toxic pool and between 1 and 3 of the toxic pool, so that a
  sentence of the toxic pool is among the fragments and occurs in the result.
\<close>

theorem generate_synthesic_sample_fragments:
  assumes nt: "synthesic_non_toxic E \<noteq> []"
      and tx: "toxic \<noteq> 0 \<longrightarrow> synthesic_toxic E \<noteq> []"
  shows "\<exists>fragments picks0 picks1 g'.
           generate_synthesic_sample E txt toxic g = Inr (join [32] fragments, g')
         \<and> mset fragments = mset (txt # picks0 @ picks1)
         \<and> set picks0 \<subseteq> set (synthesic_non_toxic E)
         \<and> set picks1 \<subseteq> set (synthesic_toxic E)
         \<and> (if toxic = 0 then 1 \<le> length picks0 \<and> length picks0 \<le> 5 \<and> picks1 = []
             else length picks0 \<le> 2 \<and> 1 \<le> length picks1 \<and> length picks1 \<le> 3
                \<and> (\<exists>f. f \<in> set (synthesic_toxic E) \<and> f \<in> set fragments
                       \<and> sublist f (join [32] fragments)))"
proof (cases "toxic = 0")
  case True
  have gnt: "\<exists>fragments picks g'.
           generate_synthesic_sample E txt 0 g = Inr (join [32] fragments, g')
         \<and> mset fragments = mset (txt # picks)
         \<and> 1 \<le> length picks \<and> length picks \<le> 5
         \<and> set picks \<subseteq> set (synthesic_non_toxic E)"
    using nt by (rule generate_non_toxic)
  then obtain fragments picks g' where
    "generate_synthesic_sample E txt 0 g = Inr (join [32] fragments, g')"
    "mset fragments = mset (txt # picks)" "1 \<le> length picks" "length picks \<le> 5"
    "set picks \<subseteq> set (synthesic_non_toxic E)" by blast
  then have "generate_synthesic_sample E txt toxic g = Inr (join [32] fragments, g')
         \<and> mset fragments = mset (txt # picks @ [])
         \<and> set picks \<subseteq> set (synthesic_non_toxic E)
         \<and> set [] \<subseteq> set (synthesic_toxic E)
         \<and> (if toxic = 0 then 1 \<le> length picks \<and> length picks \<le> 5 \<and> [] = ([] :: ustring list)
             else length picks \<le> 2 \<and> 1 \<le> length ([] :: ustring list) \<and> length ([] :: ustring list) \<le> 3
                \<and> (\<exists>f. f \<in> set (synthesic_toxic E) \<and> f \<in> set fragments
                       \<and> sublist f (join [32] fragments)))"
    using True by simp
  then show ?thesis by blast
next
  case False
  with tx have tx': "synthesic_toxic E \<noteq> []" by simp
  from generate_toxic[OF nt tx' False, of "txt" g] obtain fragments picks0 picks1 g' where
    r: "generate_synthesic_sample E txt toxic g = Inr (join [32] fragments, g')"
    and m: "mset fragments = mset (txt # picks0 @ picks1)"
    and b: "length picks0 \<le> 2" "set picks0 \<subseteq> set (synthesic_non_toxic E)"
       "1 \<le> length picks1" "length picks1 \<le> 3" "set picks1 \<subseteq> set (synthesic_toxic E)" by blast
  from b(3) obtain f rest where p1: "picks1 = f # rest" by (cases picks1) auto
  have ft: "f \<in> set (synthesic_toxic E)" using p1 b(5) by simp
  have "f \<in># mset fragments" using m p1 by simp
  then have ff: "f \<in> set fragments" by simp
  have fs: "sublist f (join [32] fragments)" using ff by (rule sublist_join)
  from ft ff fs have "\<exists>f. f \<in> set (synthesic_toxic E) \<and> f \<in> set fragments
                       \<and> sublist f (join [32] fragments)" by blast
  with r m b False show ?thesis by auto
qed

lemma randbelow_const: "randbelow n (const_rng v) = (v mod n, const_rng v)"
  by (simp add: randbelow_def const_rng_def)

lemma random_unit_const: "random_unit (const_rng v) = (real (v mod 2 ^ 53) / 2 ^ 53, const_rng v)"
  by (simp add: random_unit_def const_rng_def)

theorem generate_synthesic_sample_fragments_witness:
  "synthesic_non_toxic example_env \<noteq> [] \<and> synthesic_toxic example_env \<noteq> []
   \<and> map_sum id fst (generate_synthesic_sample example_env (ustr ''hi'') 1 (const_rng 7))
       = Inr (ustr ''hi you fool thank you you fool'')
   \<and> (\<exists>fragments picks0 picks1.
         join [32] fragments = ustr ''hi you fool thank you you fool''
       \<and> mset fragments = mset ((ustr ''hi'') # picks0 @ picks1)
       \<and> set picks0 \<subseteq> set (synthesic_non_toxic example_env)
       \<and> set picks1 \<subseteq> set (synthesic_toxic example_env)
       \<and> length picks0 \<le> 2 \<and> 1 \<le> length picks1 \<and> length picks1 \<le> 3)"
proof -
  have nt: "synthesic_non_toxic example_env \<noteq> []" by (simp add: example_env_def)
  have tx: "(1::int) \<noteq> 0 \<longrightarrow> synthesic_toxic example_env \<noteq> []" by (simp add: example_env_def)
  have ev: "map_sum id fst (generate_synthesic_sample example_env (ustr ''hi'') 1 (const_rng 7))
       = Inr (ustr ''hi you fool thank you you fool'')"
    by code_simp
  from generate_synthesic_sample_fragments[OF nt tx, of "(ustr ''hi'')" "const_rng 7"]
  obtain fragments picks0 picks1 g' where
    r: "generate_synthesic_sample example_env (ustr ''hi'') 1 (const_rng 7) = Inr (join [32] fragments, g')"
    and p: "mset fragments = mset ((ustr ''hi'') # picks0 @ picks1)"
      "set picks0 \<subseteq> set (synthesic_non_toxic example_env)"
      "set picks1 \<subseteq> set (synthesic_toxic example_env)"
      "length picks0 \<le> 2" "1 \<le> length picks1" "length picks1 \<le> 3"
    by auto
  from r ev have "join [32] fragments = ustr ''hi you fool thank you you fool''" by simp
  with p have "\<exists>fragments picks0 picks1.
         join [32] fragments = ustr ''hi you fool thank you you fool''
       \<and> mset fragments = mset ((ustr ''hi'') # picks0 @ picks1)
       \<and> set picks0 \<subseteq> set (synthesic_non_toxic example_env)
       \<and> set picks1 \<subseteq> set (synthesic_toxic example_env)
       \<and> length picks0 \<le> 2 \<and> 1 \<le> length picks1 \<and> length picks1 \<le> 3" by blast
  with nt ev show ?thesis by (simp add: example_env_def)
qed

section \<open>Properties of tokenization and of DatasetRetriever\<close>

lemma append_choices_numeral:
  "append_choices (numeral n) pool texts g =
     (case choice pool g of
        Inl e \<Rightarrow> Inl e
      | Inr (x, g') \<Rightarrow> append_choices (pred_numeral n) pool (texts @ [x]) g')"
  by (simp add: numeral_eq_Suc)

lemma shuffle_loop_numeral:
  "shuffle_loop (numeral n) xs g =
     (case randbelow (numeral n + 1) g of
        (j, g') \<Rightarrow> shuffle_loop (pred_numeral n) (xs[numeral n := xs ! j, j := xs ! numeral n]) g')"
  by (simp add: numeral_eq_Suc)


lemma encode_plus_ids:
  "2 \<le> n \<Longrightarrow> fst (encode_plus pcs s n) =
     bos_token_id # take (n - 2) (pcs s) @ eos_token_id # replicate (n - 2 - length (pcs s)) pad_token_id"
  by (auto simp: encode_plus_def Let_def min_def)

lemma encode_plus_mask:
  "2 \<le> n \<Longrightarrow> snd (encode_plus pcs s n) =
     replicate (min (length (pcs s)) (n - 2) + 2) 1 @ replicate (n - 2 - length (pcs s)) 0"
  by (auto simp: encode_plus_def Let_def min_def)

lemma get_tokens_length:
  "length (fst (get_tokens E s)) = MAX_LENGTH \<and> length (snd (get_tokens E s)) = MAX_LENGTH"
  by (simp add: get_tokens_def encode_plus_ids encode_plus_mask MAX_LENGTH_def)

lemma sum_list_replicate_nat: "sum_list (replicate k (c::nat)) = k * c"
  by (induction k) auto

lemma get_tokens_mask_sum:
  "sum_list (snd (get_tokens E s)) = min (length (tokenizer_pieces E s)) (MAX_LENGTH - 2) + 2"
  by (simp add: get_tokens_def encode_plus_mask MAX_LENGTH_def sum_list_replicate_nat)

text \<open>
  Claim C3, as amended. Tokenizing never raises, and the result is never all padding:
  the sequence is \<^verbatim>\<open><s>\<close>, at most 222 pieces of the text, \<^verbatim>\<open></s>\<close>, then padding, and the
  sum of the attention mask is the number of pieces kept plus 2. For the empty string
  (no pieces) it is \<^verbatim>\<open><s>\<close>, \<^verbatim>\<open></s>\<close> and 222 padding tokens, with mask sum 2.
\<close>

theorem get_tokens_structure:
  "fst (get_tokens E s) =
      bos_token_id # take 222 (tokenizer_pieces E s) @ eos_token_id #
        replicate (222 - length (tokenizer_pieces E s)) pad_token_id
   \<and> snd (get_tokens E s) =
      replicate (min (length (tokenizer_pieces E s)) 222 + 2) 1 @
        replicate (222 - length (tokenizer_pieces E s)) 0
   \<and> sum_list (snd (get_tokens E s)) = min (length (tokenizer_pieces E s)) 222 + 2
   \<and> 2 \<le> sum_list (snd (get_tokens E s))
   \<and> (tokenizer_pieces E [] = [] \<longrightarrow>
        get_tokens E [] = (bos_token_id # eos_token_id # replicate 222 pad_token_id,
                           1 # 1 # replicate 222 0)
        \<and> sum_list (snd (get_tokens E [])) = 2)"
proof -
  have m: "MAX_LENGTH - 2 = 222" "2 \<le> MAX_LENGTH" by (simp_all add: MAX_LENGTH_def)
  have 1: "fst (get_tokens E s) =
      bos_token_id # take 222 (tokenizer_pieces E s) @ eos_token_id #
        replicate (222 - length (tokenizer_pieces E s)) pad_token_id"
    using encode_plus_ids[OF m(2), of "tokenizer_pieces E" s] m(1) by (simp add: get_tokens_def)
  have 2: "snd (get_tokens E s) =
      replicate (min (length (tokenizer_pieces E s)) 222 + 2) 1 @
        replicate (222 - length (tokenizer_pieces E s)) 0"
    using encode_plus_mask[OF m(2), of "tokenizer_pieces E" s] m(1) by (simp add: get_tokens_def)
  have 3: "sum_list (snd (get_tokens E s)) = min (length (tokenizer_pieces E s)) 222 + 2"
    using get_tokens_mask_sum[of E s] m(1) by simp
  have 4: "tokenizer_pieces E [] = [] \<longrightarrow>
        get_tokens E [] = (bos_token_id # eos_token_id # replicate 222 pad_token_id,
                           1 # 1 # replicate 222 0)
        \<and> sum_list (snd (get_tokens E [])) = 2"
  proof
    assume e: "tokenizer_pieces E [] = []"
    have a: "fst (get_tokens E []) = bos_token_id # eos_token_id # replicate 222 pad_token_id"
      using encode_plus_ids[OF m(2), of "tokenizer_pieces E" "[]"] m(1) e by (simp add: get_tokens_def)
    have b: "snd (get_tokens E []) = 1 # 1 # replicate 222 0"
      using encode_plus_mask[OF m(2), of "tokenizer_pieces E" "[]"] m(1) e
      by (simp add: get_tokens_def numeral_2_eq_2)
    have c: "sum_list (snd (get_tokens E [])) = 2"
      using get_tokens_mask_sum[of E "[]"] e by simp
    from a b c show "get_tokens E [] = (bos_token_id # eos_token_id # replicate 222 pad_token_id,
                           1 # 1 # replicate 222 0)
        \<and> sum_list (snd (get_tokens E [])) = 2"
      by (simp add: prod_eq_iff)
  qed
  from 1 2 3 4 show ?thesis by simp
qed

theorem get_tokens_structure_witness:
  "tokenizer_pieces example_env [] = []
   \<and> get_tokens example_env [] = (bos_token_id # eos_token_id # replicate 222 pad_token_id,
                                  1 # 1 # replicate 222 0)
   \<and> sum_list (snd (get_tokens example_env [])) = 2
   \<and> sum_list (snd (get_tokens example_env (ustr ''so short''))) = 10"
proof -
  have e: "tokenizer_pieces example_env [] = []"
    by (simp add: example_env_def example_pieces_def ustr_def)
  have l: "length (tokenizer_pieces example_env (ustr ''so short'')) = 8"
    by (simp add: example_env_def example_pieces_def ustr_def)
  from get_tokens_structure[of example_env "[]"] get_tokens_structure[of example_env "(ustr ''so short'')"] e l
  show ?thesis by (simp add: sum_list_replicate_nat)
qed

text \<open>
  Claim C3 as stated fails: the tokenization of the empty string starts with the two
  special tokens, which are not padding, and its attention mask sums to 2, not 0.
\<close>

theorem get_tokens_empty_counterexample:
  "sum_list (snd (get_tokens example_env [])) = 2
   \<and> take 3 (fst (get_tokens example_env [])) = [bos_token_id, eos_token_id, pad_token_id]
   \<and> bos_token_id \<noteq> pad_token_id \<and> eos_token_id \<noteq> pad_token_id"
  by (simp add: get_tokens_def encode_plus_def example_env_def example_pieces_def ustr_def Let_def
      MAX_LENGTH_def bos_token_id_def eos_token_id_def pad_token_id_def sum_list_replicate_nat)


lemma transform_call_pure:
  "transform_call p a (pure_apply f) d g =
     Inr (if fst (random_unit g) < p \<or> a then f d else d, snd (random_unit g))"
  by (simp add: transform_call_def pure_apply_def split: prod.splits)

lemma then_call_Inr: "then_call (Inr (x, g)) f = f x g"
  by (simp add: then_call_def)

lemma train_transforms_total:
  "\<exists>txt1 lang1 g1. train_transforms E d g = Inr ((txt1, lang1), g1)"
  by (simp add: train_transforms_def Let_def transform_call_pure then_call_Inr split: prod.splits)

lemma getitem_tail_lengths:
  "getitem_tail E d idx target s g = Inr ((y, toks, att), g') \<Longrightarrow>
     length toks = MAX_LENGTH \<and> length att = MAX_LENGTH"
  using get_tokens_length[of E s]
  by (auto simp: getitem_tail_def split: prod.splits sum.splits if_splits)

lemma getitem_tail_total:
  "(if test d = False then target \<noteq> None else idx < length (labels_or_ids d)) \<Longrightarrow>
     \<exists>y toks att. getitem_tail E d idx target s g = Inr ((y, toks, att), g)"
  by (auto simp: getitem_tail_def bound_def item_def split: prod.splits sum.splits option.splits if_splits)


lemma getitem_lengths:
  assumes "getitem E d idx g = Inr ((y, toks, att), g')"
  shows "length toks = MAX_LENGTH \<and> length att = MAX_LENGTH"
proof (cases "use_train_transforms d")
  case False
  with assms obtain target s where "getitem_tail E d idx target s g = Inr ((y, toks, att), g')"
    by (auto simp: getitem_def Let_def split: sum.splits)
  then show ?thesis by (rule getitem_tail_lengths)
next
  case True
  from assms obtain s l label where
    s: "item (comment_texts d) idx = Inr s" and l: "item (langs d) idx = Inr l"
    and lab: "(if test d = False then map_sum id Some (item (labels_or_ids d) idx) else Inr None) = Inr label"
    by (auto simp: getitem_def Let_def split: sum.splits)
  obtain txt1 lang1 g1 where tt: "train_transforms E (s, l) g = Inr ((txt1, lang1), g1)"
    using train_transforms_total by blast
  show ?thesis
  proof (cases "sum_list (snd (get_tokens E txt1)) < 60")
    case False
    with assms True s l lab tt have "(toks, att) = get_tokens E txt1"
      by (auto simp: getitem_def Let_def split: sum.splits prod.splits)
    with get_tokens_length[of E txt1] show ?thesis by (metis fst_conv snd_conv)
  next
    case c: True
    with assms True s l lab tt obtain target s2 g2 where
      "getitem_tail E d idx target s2 g2 = Inr ((y, toks, att), g')"
      by (auto simp: getitem_def Let_def split: sum.splits prod.splits)
    then show ?thesis by (rule getitem_tail_lengths)
  qed
qed


lemma getitem_eval_mode:
  assumes "\<not> use_train_transforms d" "idx < length (comment_texts d)" "idx < length (langs d)"
    "idx < length (labels_or_ids d)"
  shows "getitem E d idx g = Inr ((labels_or_ids d ! idx, get_tokens E (comment_texts d ! idx)), g)"
  using assms
  by (auto simp: getitem_def getitem_tail_def item_def bound_def Let_def split: prod.splits)

lemma synthesic_transforms_unfold:
  "synthesic_transforms E (s, l) g =
     (case random_unit g of
        (r, g2) \<Rightarrow>
          if r < 1/2 then
            (case generate_synthesic_sample E s l g2 of
               Inl e \<Rightarrow> Inl e
             | Inr (mixed, g3) \<Rightarrow> Inr ((mixed, l), g3))
          else Inr ((s, l), g2))"
  by (simp add: synthesic_transforms_def transform_call_def SynthesicOpenSubtitles_apply_def
      split: prod.splits sum.splits)

lemma getitem_train_mode:
  assumes tr: "use_train_transforms d" and te: "test d = False"
    and i: "idx < length (comment_texts d)" "idx < length (langs d)" "idx < length (labels_or_ids d)"
    and tt: "train_transforms E (comment_texts d ! idx, langs d ! idx) g = Inr ((txt1, lang1), g1)"
  shows "getitem E d idx g =
     (if sum_list (snd (get_tokens E txt1)) < 60 then
        (case random_unit g1 of
           (r, g2) \<Rightarrow>
             if r < 1/2 then
               (case generate_synthesic_sample E txt1 (labels_or_ids d ! idx) g2 of
                  Inl e \<Rightarrow> Inl e
                | Inr (mixed, g3) \<Rightarrow> Inr ((labels_or_ids d ! idx, get_tokens E mixed), g3))
             else Inr ((labels_or_ids d ! idx, get_tokens E txt1), g2))
      else Inr ((labels_or_ids d ! idx, get_tokens E txt1), g1))"
  using tr te i tt
  by (auto simp: getitem_def getitem_tail_def item_def bound_def Let_def synthesic_transforms_unfold
      split: prod.splits sum.splits)


text \<open>
  Claim C1, as amended. In training mode (\<^verbatim>\<open>use_train_transforms\<close> set, \<^verbatim>\<open>test\<close> false, a valid
  index), with \<open>txt1\<close> the augmented text: when its tokenization has 60 real tokens or
  more, that tokenization is returned and nothing else is drawn or mixed. When it has
  fewer than 60, the synthetic transform is called, and the transform, built with
  \<^verbatim>\<open>p=0.5\<close>, draws once: below one half it runs \<^verbatim>\<open>generate_synthesic_sample\<close> on the augmented
  text and the label, and the mixed text is tokenized from scratch; otherwise the
  augmented text is tokenized again, unmixed. So the mixer runs only if the count is
  below 60, and then only when the draw of the transform lets it.
\<close>

theorem getitem_mixer_trigger:
  assumes "use_train_transforms d" and "test d = False"
    and "idx < length (comment_texts d)" and "idx < length (langs d)"
    and "idx < length (labels_or_ids d)"
  shows "\<exists>txt1 lang1 g1.
     train_transforms E (comment_texts d ! idx, langs d ! idx) g = Inr ((txt1, lang1), g1)
   \<and> getitem E d idx g =
     (if sum_list (snd (get_tokens E txt1)) < 60 then
        (case random_unit g1 of
           (r, g2) \<Rightarrow>
             if r < 1/2 then
               (case generate_synthesic_sample E txt1 (labels_or_ids d ! idx) g2 of
                  Inl e \<Rightarrow> Inl e
                | Inr (mixed, g3) \<Rightarrow> Inr ((labels_or_ids d ! idx, get_tokens E mixed), g3))
             else Inr ((labels_or_ids d ! idx, get_tokens E txt1), g2))
      else Inr ((labels_or_ids d ! idx, get_tokens E txt1), g1))"
proof -
  obtain txt1 lang1 g1 where
    tt: "train_transforms E (comment_texts d ! idx, langs d ! idx) g = Inr ((txt1, lang1), g1)"
    using train_transforms_total by blast
  from getitem_train_mode[OF assms tt] tt show ?thesis by blast
qed

lemmas regex_eval = sub_digits_def sub_digits_quotes_def is_digit_def is_space_def is_word_def
  tag_match_def run_def boundary_at_def url_match_def strip_def get_sentences_def LANGS_get_def
  LANGS_def example_splitter_def is_stop_def ustr_def

lemmas transforms_eval = train_transforms_def Let_def transform_call_pure then_call_Inr random_unit_const
  ExcludeUsersMentioned_apply_def ExcludeUrls_apply_def ExcludeNumbers_apply_def
  ExcludeHashtags_apply_def ExcludeDuplicateSentences_apply_def example_env_def

lemma train_transforms_example_half:
  "train_transforms example_env (ustr ''so short'', ustr ''en'') (const_rng (2 ^ 52))
     = Inr ((ustr ''so short'', ustr ''en''), const_rng (2 ^ 52))"
  by (simp add: transforms_eval regex_eval)

lemma train_transforms_example_zero:
  "train_transforms example_env (ustr ''so short'', ustr ''en'') (const_rng 0)
     = Inr ((ustr ''so short'', ustr ''en''), const_rng 0)"
  by (simp add: transforms_eval regex_eval)

lemma generate_example_zero:
  "generate_synthesic_sample example_env (ustr ''so short'') 1 (const_rng 0)
     = Inr (ustr ''you fool so short'', const_rng 0)"
  by (simp add: generate_synthesic_sample_def example_env_def randint_def
      randbelow_const choice_def shuffle_def numeral_2_eq_2[symmetric] ustr_def)

lemma example_mask_sum:
  "sum_list (snd (get_tokens example_env s)) = min (length s) 222 + 2"
  by (simp add: get_tokens_mask_sum example_env_def example_pieces_def ustr_def MAX_LENGTH_def)

theorem getitem_mixer_trigger_witness:
  "use_train_transforms example_dataset \<and> test example_dataset = False
   \<and> (0::nat) < length (comment_texts example_dataset)
   \<and> train_transforms example_env (comment_texts example_dataset ! 0, langs example_dataset ! 0)
        (const_rng 0) = Inr ((ustr ''so short'', ustr ''en''), const_rng 0)
   \<and> sum_list (snd (get_tokens example_env (ustr ''so short''))) < 60
   \<and> getitem example_env example_dataset 0 (const_rng 0)
       = Inr ((1, get_tokens example_env (ustr ''you fool so short'')), const_rng 0)"
proof -
  have h: "use_train_transforms example_dataset" "test example_dataset = False"
    "0 < length (comment_texts example_dataset)" "0 < length (langs example_dataset)"
    "0 < length (labels_or_ids example_dataset)"
    by (simp_all add: example_dataset_def)
  have tt: "train_transforms example_env (comment_texts example_dataset ! 0, langs example_dataset ! 0)
        (const_rng 0) = Inr ((ustr ''so short'', ustr ''en''), const_rng 0)"
    using train_transforms_example_zero by (simp add: example_dataset_def)
  have c: "sum_list (snd (get_tokens example_env (ustr ''so short''))) < 60"
    by (simp add: example_mask_sum ustr_def)
  have l: "labels_or_ids example_dataset ! 0 = 1" by (simp add: example_dataset_def)
  from getitem_mixer_trigger[OF h, of example_env "const_rng 0"] tt c l
  have "getitem example_env example_dataset 0 (const_rng 0)
       = Inr ((1, get_tokens example_env (ustr ''you fool so short'')), const_rng 0)"
    by (simp add: random_unit_const generate_example_zero)
  with h tt c show ?thesis by simp
qed

text \<open>
  Claim C1 as stated fails: here the augmented text has 10 real tokens, fewer than 60,
  and the draw of the transform is one half, so the mixer does not run. What comes back
  is the tokenization of the augmented text itself, which no mix of it has.
\<close>

theorem getitem_mixer_not_run_counterexample:
  "train_transforms example_env (ustr ''so short'', ustr ''en'') (const_rng (2 ^ 52))
     = Inr ((ustr ''so short'', ustr ''en''), const_rng (2 ^ 52))
   \<and> sum_list (snd (get_tokens example_env (ustr ''so short''))) = 10
   \<and> fst (random_unit (const_rng (2 ^ 52))) = 1/2
   \<and> getitem example_env example_dataset 0 (const_rng (2 ^ 52))
       = Inr ((1, get_tokens example_env (ustr ''so short'')), const_rng (2 ^ 52))
   \<and> map_sum id fst (generate_synthesic_sample example_env (ustr ''so short'') 1 (const_rng (2 ^ 52)))
       = Inr (ustr ''you fool you fool nice day so short'')
   \<and> get_tokens example_env (ustr ''you fool you fool nice day so short'')
       \<noteq> get_tokens example_env (ustr ''so short'')"
proof -
  have h: "use_train_transforms example_dataset" "test example_dataset = False"
    "0 < length (comment_texts example_dataset)" "0 < length (langs example_dataset)"
    "0 < length (labels_or_ids example_dataset)"
    by (simp_all add: example_dataset_def)
  have tt: "train_transforms example_env (comment_texts example_dataset ! 0, langs example_dataset ! 0)
        (const_rng (2 ^ 52)) = Inr ((ustr ''so short'', ustr ''en''), const_rng (2 ^ 52))"
    using train_transforms_example_half by (simp add: example_dataset_def)
  have c: "sum_list (snd (get_tokens example_env (ustr ''so short''))) = 10"
    by (simp add: example_mask_sum ustr_def)
  have r: "fst (random_unit (const_rng (2 ^ 52))) = 1/2"
    by (simp add: random_unit_const)
  have l: "labels_or_ids example_dataset ! 0 = 1" by (simp add: example_dataset_def)
  have g: "getitem example_env example_dataset 0 (const_rng (2 ^ 52))
       = Inr ((1, get_tokens example_env (ustr ''so short'')), const_rng (2 ^ 52))"
    using getitem_train_mode[OF h tt, of] c l by (simp add: random_unit_const)
  have m: "map_sum id fst (generate_synthesic_sample example_env (ustr ''so short'') 1 (const_rng (2 ^ 52)))
       = Inr (ustr ''you fool you fool nice day so short'')"
    by (simp add: generate_synthesic_sample_def example_env_def randint_def
      randbelow_const choice_def shuffle_def append_choices_numeral shuffle_loop_numeral
      numeral_2_eq_2[symmetric] numeral_3_eq_3[symmetric] ustr_def)
  have "sum_list (snd (get_tokens example_env (ustr ''you fool you fool nice day so short'')))
       \<noteq> sum_list (snd (get_tokens example_env (ustr ''so short'')))"
    by (simp add: example_mask_sum ustr_def)
  then have n: "get_tokens example_env (ustr ''you fool you fool nice day so short'')
       \<noteq> get_tokens example_env (ustr ''so short'')" by metis
  from train_transforms_example_half c r g m n show ?thesis by simp
qed


lemma generate_total:
  assumes "synthesic_non_toxic E \<noteq> []" and "synthesic_toxic E \<noteq> []"
  shows "\<exists>mixed g'. generate_synthesic_sample E s l g = Inr (mixed, g')"
proof (cases "l = 0")
  case True
  with generate_non_toxic[OF assms(1), of s g] show ?thesis by blast
next
  case False
  with generate_toxic[OF assms(1) assms(2) False, of s g] show ?thesis by blast
qed

lemma getitem_total:
  assumes i: "idx < length (comment_texts d)" "idx < length (langs d)" "idx < length (labels_or_ids d)"
    and tr: "use_train_transforms d \<longrightarrow>
               test d = False \<and> synthesic_non_toxic E \<noteq> [] \<and> synthesic_toxic E \<noteq> []"
  shows "\<exists>y toks att g'. getitem E d idx g = Inr ((y, toks, att), g')"
proof (cases "use_train_transforms d")
  case False
  from getitem_eval_mode[OF False i, of E g] show ?thesis by (metis prod.collapse)
next
  case True
  with tr have te: "test d = False" and nt: "synthesic_non_toxic E \<noteq> []"
    and tx: "synthesic_toxic E \<noteq> []" by simp_all
  obtain txt1 lang1 g1 where
    tt: "train_transforms E (comment_texts d ! idx, langs d ! idx) g = Inr ((txt1, lang1), g1)"
    using train_transforms_total by blast
  obtain r g2 where ru: "random_unit g1 = (r, g2)" by (cases "random_unit g1")
  obtain mixed g3 where
    gen: "generate_synthesic_sample E txt1 (labels_or_ids d ! idx) g2 = Inr (mixed, g3)"
    using generate_total[OF nt tx] by blast
  have "\<exists>res g'. getitem E d idx g = Inr (res, g')"
    unfolding getitem_train_mode[OF True te i tt] using ru gen by simp
  then show ?thesis by (metis prod.collapse)
qed

text \<open>
  Claim C2. \<^verbatim>\<open>get_tokens\<close> returns, for every text (the empty string included), token ids
  and an attention mask of length \<^verbatim>\<open>MAX_LENGTH\<close>, which is 224; whatever \<^verbatim>\<open>__getitem__\<close>
  returns has these lengths; and \<^verbatim>\<open>__getitem__\<close> does return, for every index in range,
  in evaluation and test mode and, when the pools of the mixer are not empty, in
  training mode on a labelled dataset.
\<close>

theorem getitem_token_lengths:
  "length (fst (get_tokens E s)) = 224 \<and> length (snd (get_tokens E s)) = 224
   \<and> MAX_LENGTH = 224
   \<and> (\<forall>y toks att g'. getitem E d idx g = Inr ((y, toks, att), g')
         \<longrightarrow> length toks = 224 \<and> length att = 224)
   \<and> (idx < length (comment_texts d) \<and> idx < length (langs d) \<and> idx < length (labels_or_ids d)
       \<and> (use_train_transforms d \<longrightarrow>
             test d = False \<and> synthesic_non_toxic E \<noteq> [] \<and> synthesic_toxic E \<noteq> [])
      \<longrightarrow> (\<exists>y toks att g'. getitem E d idx g = Inr ((y, toks, att), g')))"
proof -
  have m: "MAX_LENGTH = 224" by (simp add: MAX_LENGTH_def)
  have 1: "length (fst (get_tokens E s)) = 224 \<and> length (snd (get_tokens E s)) = 224"
    using get_tokens_length[of E s] m by simp
  have 2: "\<forall>y toks att g'. getitem E d idx g = Inr ((y, toks, att), g')
         \<longrightarrow> length toks = 224 \<and> length att = 224"
    using getitem_lengths[of E d idx g] m by auto
  have 3: "idx < length (comment_texts d) \<and> idx < length (langs d) \<and> idx < length (labels_or_ids d)
       \<and> (use_train_transforms d \<longrightarrow>
             test d = False \<and> synthesic_non_toxic E \<noteq> [] \<and> synthesic_toxic E \<noteq> [])
      \<longrightarrow> (\<exists>y toks att g'. getitem E d idx g = Inr ((y, toks, att), g'))"
    using getitem_total[of idx d E g] by blast
  from 1 m 2 3 show ?thesis by blast
qed

theorem getitem_token_lengths_witness:
  "comment_texts example_dataset ! 1 = [] \<and> use_train_transforms example_dataset
   \<and> length (fst (get_tokens example_env [])) = 224
   \<and> length (snd (get_tokens example_env [])) = 224
   \<and> (\<exists>y toks att g'. getitem example_env example_dataset 1 (const_rng 0) = Inr ((y, toks, att), g')
         \<and> length toks = 224 \<and> length att = 224)"
proof -
  have h: "1 < length (comment_texts example_dataset) \<and> 1 < length (langs example_dataset)
       \<and> 1 < length (labels_or_ids example_dataset)
       \<and> (use_train_transforms example_dataset \<longrightarrow>
             test example_dataset = False \<and> synthesic_non_toxic example_env \<noteq> []
             \<and> synthesic_toxic example_env \<noteq> [])"
    by (simp add: example_dataset_def example_env_def)
  have e: "comment_texts example_dataset ! 1 = []" "use_train_transforms example_dataset"
    by (simp_all add: example_dataset_def)
  note t = getitem_token_lengths[of example_env "[]" example_dataset 1 "const_rng 0"]
  from t h obtain y toks att g' where
    r: "getitem example_env example_dataset 1 (const_rng 0) = Inr ((y, toks, att), g')" by blast
  with t have "length toks = 224 \<and> length att = 224" by blast
  with r have "\<exists>y toks att g'. getitem example_env example_dataset 1 (const_rng 0) = Inr ((y, toks, att), g')
         \<and> length toks = 224 \<and> length att = 224" by blast
  with t e show ?thesis by simp
qed

section \<open>Properties of the duplicate removal\<close>

lemma exclude_duplicate_loop_snoc:
  "exclude_duplicate_loop U acc (ss @ [s]) =
     (let r = exclude_duplicate_loop U acc ss in if strip U s \<in> set r then r else r @ [strip U s])"
  by (induction ss arbitrary: acc) (auto simp: Let_def)

lemma set_exclude_duplicate_loop:
  "set (exclude_duplicate_loop U acc ss) = set acc \<union> strip U ` set ss"
  by (induction ss arbitrary: acc) (auto simp: Let_def)

lemma first_occurrences_snoc:
  "first_occurrences (xs @ [x]) = first_occurrences xs @ (if x \<in> set xs then [] else [x])"
proof -
  have f: "filter (\<lambda>i. (xs @ [x]) ! i \<notin> set (take i (xs @ [x]))) [0..<length xs]
         = filter (\<lambda>i. xs ! i \<notin> set (take i xs)) [0..<length xs]"
    by (rule filter_cong) (auto simp: nth_append)
  have m: "map (\<lambda>i. (xs @ [x]) ! i) (filter (\<lambda>i. xs ! i \<notin> set (take i xs)) [0..<length xs])
         = map (\<lambda>i. xs ! i) (filter (\<lambda>i. xs ! i \<notin> set (take i xs)) [0..<length xs])"
    by (rule map_cong) (auto simp: nth_append)
  show ?thesis
    unfolding first_occurrences_def using f m by simp
qed

lemma first_occurrences_Nil: "first_occurrences [] = []"
  by (simp add: first_occurrences_def)

lemma set_first_occurrences: "set (first_occurrences xs) = set xs"
  by (induction xs rule: rev_induct) (auto simp: first_occurrences_snoc first_occurrences_Nil)

lemma distinct_first_occurrences: "distinct (first_occurrences xs)"
  by (induction xs rule: rev_induct)
     (auto simp: first_occurrences_snoc set_first_occurrences first_occurrences_Nil)

lemma exclude_duplicate_loop_first_occurrences:
  "exclude_duplicate_loop U [] ss = first_occurrences (map (strip U) ss)"
proof (induction ss rule: rev_induct)
  case Nil
  show ?case by (simp add: first_occurrences_Nil)
next
  case (snoc s ss)
  have "set (exclude_duplicate_loop U [] ss) = set (map (strip U) ss)"
    by (simp add: set_exclude_duplicate_loop)
  with snoc show ?case
    by (simp add: exclude_duplicate_loop_snoc first_occurrences_snoc Let_def)
qed

lemma count_list_distinct: "distinct xs \<Longrightarrow> x \<in> set xs \<Longrightarrow> count_list xs x = 1"
  by (induction xs) (auto simp: count_list_0_iff)

lemma clean_text_unfold:
  "clean_text U st t lang =
     strip U (join [32] (first_occurrences (map (strip U) (get_sentences st (clean_regex U t) lang))))"
  by (simp add: clean_text_def exclude_duplicate_sentences_def exclude_duplicate_loop_first_occurrences)

text \<open>
  Claim C5. For every text, language and sentence splitter, \<^verbatim>\<open>clean_text\<close> returns the
  sentences of the text (as left by the five substitutions), each trimmed, at their first
  occurrences only and in the order of these, joined by single spaces, and trimmed.
  Keeping the first occurrences keeps each sentence exactly once: a sentence that is
  already there is not added again, one that is not is added at the end.
\<close>

theorem clean_text_duplicates:
  "clean_text U st t lang =
     strip U (join [32] (first_occurrences (map (strip U) (get_sentences st (clean_regex U t) lang))))
   \<and> distinct (first_occurrences sentences)
   \<and> set (first_occurrences sentences) = set sentences
   \<and> (\<forall>s \<in> set sentences. count_list (first_occurrences sentences) s = 1)
   \<and> first_occurrences (sentences @ [s]) =
        (if s \<in> set sentences then first_occurrences sentences else first_occurrences sentences @ [s])"
  using clean_text_unfold[of U st t lang] distinct_first_occurrences[of sentences]
    set_first_occurrences[of sentences] first_occurrences_snoc[of sentences s]
  by (simp add: count_list_distinct)

theorem clean_text_duplicates_witness:
  "clean_text example_ucd example_splitter (ustr ''Hi you. Bye now. Hi you.  Hi you.'') (ustr ''en'') = ustr ''Hi you. Bye now.''
   \<and> map (strip example_ucd) (get_sentences example_splitter (clean_regex example_ucd (ustr ''Hi you. Bye now. Hi you.  Hi you.'')) (ustr ''en''))
       = [ustr ''Hi you.'', ustr ''Bye now.'', ustr ''Hi you.'', ustr ''Hi you.'']
   \<and> first_occurrences [ustr ''Hi you.'', ustr ''Bye now.'', ustr ''Hi you.'', ustr ''Hi you.''] = [ustr ''Hi you.'', ustr ''Bye now.'']
   \<and> count_list (first_occurrences [ustr ''Hi you.'', ustr ''Bye now.'', ustr ''Hi you.'', ustr ''Hi you.'']) (ustr ''Hi you.'') = 1"
proof -
  have s: "map (strip example_ucd) (get_sentences example_splitter (clean_regex example_ucd (ustr ''Hi you. Bye now. Hi you.  Hi you.'')) (ustr ''en''))
       = [ustr ''Hi you.'', ustr ''Bye now.'', ustr ''Hi you.'', ustr ''Hi you.'']"
    by (simp add: clean_regex_def regex_eval)
  have f: "first_occurrences [ustr ''Hi you.'', ustr ''Bye now.'', ustr ''Hi you.'', ustr ''Hi you.''] = [ustr ''Hi you.'', ustr ''Bye now.'']"
    using first_occurrences_snoc[of "[ustr ''Hi you.'', ustr ''Bye now.'', ustr ''Hi you.'']" "ustr ''Hi you.''"]
      first_occurrences_snoc[of "[ustr ''Hi you.'', ustr ''Bye now.'']" "ustr ''Hi you.''"]
      first_occurrences_snoc[of "[ustr ''Hi you.'']" "ustr ''Bye now.''"]
      first_occurrences_snoc[of "[]" "ustr ''Hi you.''"]
    by (simp add: first_occurrences_Nil ustr_def)
  note t = clean_text_duplicates[of example_ucd example_splitter "ustr ''Hi you. Bye now. Hi you.  Hi you.''" "ustr ''en''"
      "[ustr ''Hi you.'', ustr ''Bye now.'', ustr ''Hi you.'', ustr ''Hi you.'']" "[]"]
  have c: "clean_text example_ucd example_splitter (ustr ''Hi you. Bye now. Hi you.  Hi you.'') (ustr ''en'') = ustr ''Hi you. Bye now.''"
    using t s f by (simp add: strip_def is_space_def ustr_def)
  have "ustr ''Hi you.'' \<in> set [ustr ''Hi you.'', ustr ''Bye now.'', ustr ''Hi you.'', ustr ''Hi you.'']" by simp
  with t have "count_list (first_occurrences [ustr ''Hi you.'', ustr ''Bye now.'', ustr ''Hi you.'', ustr ''Hi you.'']) (ustr ''Hi you.'') = 1"
    by blast
  with c s f show ?thesis by simp
qed

text \<open>
  Claim C9. \<^verbatim>\<open>clean_text\<close> of \<^verbatim>\<open>"Check this out http://x.co #great @bob 123"\<close> with language
  \<^verbatim>\<open>en\<close> is \<^verbatim>\<open>"Check this out"\<close>, for every sentence splitter that returns the text
  \<^verbatim>\<open>"Check this out "\<close>, which has no sentence end, as one sentence (with or without the
  whitespace around it).
\<close>

theorem clean_text_example:
  assumes "map (strip U) (st (ustr ''Check this out '') (ustr ''english'')) = [ustr ''Check this out'']"
  shows "clean_text U st (ustr ''Check this out http://x.co #great @bob 123'') (ustr ''en'') = ustr ''Check this out''"
proof -
  have r: "clean_regex U (ustr ''Check this out http://x.co #great @bob 123'') = ustr ''Check this out ''"
    by (simp add: clean_regex_def regex_eval)
  have l: "LANGS_get (ustr ''en'') = ustr ''english''" by (simp add: LANGS_get_def LANGS_def ustr_def)
  have f: "first_occurrences [ustr ''Check this out''] = [ustr ''Check this out'']"
    using first_occurrences_snoc[of "[]" "ustr ''Check this out''"] by (simp add: first_occurrences_Nil)
  show ?thesis
    unfolding clean_text_unfold r get_sentences_def l assms f
    by (simp add: strip_def is_space_def ustr_def)
qed

theorem clean_text_example_witness:
  "map (strip example_ucd) (example_splitter (ustr ''Check this out '') (ustr ''english'')) = [ustr ''Check this out'']
   \<and> clean_text example_ucd example_splitter (ustr ''Check this out http://x.co #great @bob 123'') (ustr ''en'')
       = ustr ''Check this out''"
proof -
  have h: "map (strip example_ucd) (example_splitter (ustr ''Check this out '') (ustr ''english'')) = [ustr ''Check this out'']"
    by (simp add: regex_eval)
  from clean_text_example[of example_ucd example_splitter] h show ?thesis by simp
qed

section \<open>Properties of the substitutions\<close>

lemma space_not_word: "ucd_ok U \<Longrightarrow> is_space U c \<Longrightarrow> \<not> is_word U c"
  by (simp add: ucd_ok_def)

lemma tag_chars:
  "\<not> is_space U 35" "\<not> is_word U 35" "\<not> is_space U 64" "\<not> is_word U 64"
  by (simp_all add: is_space_def is_word_def)

lemma run_Cons: "run U (c # cs) = (if is_space U c then [] else c # run U cs)"
  by (simp add: run_def)

lemma run_Nil: "run U [] = []"
  by (simp add: run_def)

lemma run_nth: "j < length (run U cs) \<Longrightarrow> cs ! j = run U cs ! j"
  by (simp add: run_def takeWhile_nth)

lemma run_not_space: "c \<in> set (run U cs) \<Longrightarrow> \<not> is_space U c"
  by (auto simp: run_def dest: set_takeWhileD)

lemma length_run_le: "length (run U cs) \<le> length cs"
  by (simp add: run_def length_takeWhile_le)

lemma after_run: "length (run U cs) < length cs \<Longrightarrow> is_space U (cs ! length (run U cs))"
  using nth_length_takeWhile[of "\<lambda>c. \<not> is_space U c" cs] by (simp add: run_def)

lemma run_drop: "k \<le> length (run U cs) \<Longrightarrow> run U (drop k cs) = drop k (run U cs)"
proof (induction cs arbitrary: k)
  case Nil
  then show ?case by (simp add: run_def)
next
  case (Cons c cs)
  show ?case
  proof (cases k)
    case 0
    then show ?thesis by simp
  next
    case (Suc j)
    with Cons.prems have ns: "\<not> is_space U c" and j: "j \<le> length (run U cs)"
      by (auto simp: run_Cons split: if_splits)
    with Cons.IH[OF j] Suc show ?thesis by (simp add: run_Cons)
  qed
qed

lemma take_run: "k \<le> length (run U cs) \<Longrightarrow> take k cs = take k (run U cs)"
proof (induction cs arbitrary: k)
  case Nil
  then show ?case by (simp add: run_def)
next
  case (Cons c cs)
  show ?case
  proof (cases k)
    case 0
    then show ?thesis by simp
  next
    case (Suc j)
    with Cons.prems have ns: "\<not> is_space U c" and j: "j \<le> length (run U cs)"
      by (auto simp: run_Cons split: if_splits)
    with Cons.IH[OF j] Suc show ?thesis by (simp add: run_Cons)
  qed
qed

lemma no_boundary_no_word:
  assumes nb: "\<forall>k. 1 \<le> k \<and> k \<le> length (run U cs) \<longrightarrow> \<not> boundary_at U cs k"
    and ok: "ucd_ok U"
  shows "j < length (run U cs) \<Longrightarrow> \<not> is_word U (cs ! j)"
proof (induction "length (run U cs) - j" arbitrary: j)
  case 0
  then show ?case by simp
next
  case (Suc d)
  have "\<not> boundary_at U cs (Suc j)" using nb Suc.prems by simp
  then have eq: "is_word U (cs ! j) = (Suc j < length cs \<and> is_word U (cs ! Suc j))"
    by (simp add: boundary_at_def)
  show ?case
  proof (cases "Suc j < length (run U cs)")
    case True
    have "d = length (run U cs) - Suc j" using Suc.hyps(2) by simp
    from Suc.hyps(1)[OF this True] eq show ?thesis by simp
  next
    case False
    with Suc.prems have e: "Suc j = length (run U cs)" by simp
    show ?thesis
    proof (cases "Suc j < length cs")
      case True
      with after_run[of U cs] e have "is_space U (cs ! Suc j)" by simp
      with eq space_not_word[OF ok] show ?thesis by blast
    next
      case False
      with eq show ?thesis by simp
    qed
  qed
qed

lemma tag_match_None_iff:
  assumes ok: "ucd_ok U"
  shows "(tag_match U cs = None) = (\<forall>c \<in> set (run U cs). \<not> is_word U c)"
proof
  assume n: "tag_match U cs = None"
  then have nb: "\<forall>k. 1 \<le> k \<and> k \<le> length (run U cs) \<longrightarrow> \<not> boundary_at U cs k"
    by (auto simp: tag_match_def find_None_iff)
  show "\<forall>c \<in> set (run U cs). \<not> is_word U c"
  proof
    fix c assume "c \<in> set (run U cs)"
    then obtain j where j: "j < length (run U cs)" "run U cs ! j = c" by (auto simp: in_set_conv_nth)
    from no_boundary_no_word[OF nb ok j(1)] run_nth[OF j(1)] j(2) show "\<not> is_word U c" by simp
  qed
next
  assume w: "\<forall>c \<in> set (run U cs). \<not> is_word U c"
  have "\<not> boundary_at U cs k" if k: "1 \<le> k" "k \<le> length (run U cs)" for k
  proof -
    have "k - 1 < length (run U cs)" using k by simp
    then have a: "\<not> is_word U (cs ! (k - 1))" using w run_nth[of "k - 1" U cs] by (metis nth_mem)
    have b: "\<not> (k < length cs \<and> is_word U (cs ! k))"
    proof (cases "k < length (run U cs)")
      case True
      then show ?thesis using w run_nth[of k U cs] by (metis nth_mem)
    next
      case False
      with k have e: "k = length (run U cs)" by simp
      show ?thesis
      proof
        assume h: "k < length cs \<and> is_word U (cs ! k)"
        with after_run[of U cs] e have "is_space U (cs ! k)" by simp
        with h space_not_word[OF ok] show False by blast
      qed
    qed
    from a b show ?thesis by (simp add: boundary_at_def)
  qed
  then show "tag_match U cs = None" by (auto simp: tag_match_def find_None_iff)
qed

lemma tag_match_Some_le:
  assumes "tag_match U cs = Some k"
  shows "1 \<le> k \<and> k \<le> length (run U cs)"
proof -
  let ?ks = "rev [1..<Suc (length (run U cs))]"
  from assms obtain i where "i < length ?ks" "k = ?ks ! i"
    unfolding tag_match_def find_Some_iff by blast
  then have "k \<in> set ?ks" using nth_mem by blast
  then show ?thesis by auto
qed


lemma tagscan_mono: "tagscan U t a s \<Longrightarrow> (a \<longrightarrow> b) \<Longrightarrow> tagscan U t b s"
  by (induction s arbitrary: a b) (auto split: if_splits)

lemma tagscan_has_tag:
  "ucd_ok U \<Longrightarrow> \<not> is_space U t \<Longrightarrow>
     tagscan U t a s = ((a \<and> (\<exists>c \<in> set (run U s). is_word U c)) \<or> has_tag U t s)"
proof (induction s arbitrary: a)
  case Nil
  show ?case by (simp add: run_Nil)
next
  case (Cons c cs)
  have tm: "(tag_match U cs \<noteq> None) = (\<exists>c \<in> set (run U cs). is_word U c)"
    by (simp add: tag_match_None_iff[OF Cons.prems(1)])
  show ?case
  proof (cases "is_space U c")
    case True
    with Cons.prems have "c \<noteq> t" by blast
    with True Cons.IH[OF Cons.prems, of False] show ?thesis by (simp add: run_Cons)
  next
    case False
    then show ?thesis
      using Cons.IH[OF Cons.prems, of "a \<or> c = t"] tm by (auto simp: run_Cons)
  qed
qed

lemma has_tag_tagscan:
  "ucd_ok U \<Longrightarrow> \<not> is_space U t \<Longrightarrow> has_tag U t s = tagscan U t False s"
  by (simp add: tagscan_has_tag)

lemma tagscan_prepend:
  "\<forall>c \<in> set xs. \<not> is_space U c \<Longrightarrow> tagscan U t a ys \<Longrightarrow> tagscan U t a (xs @ ys)"
proof (induction xs arbitrary: a)
  case Nil
  then show ?case by simp
next
  case (Cons x xs)
  from Cons.prems(2) have "tagscan U t (a \<or> x = t) ys" by (rule tagscan_mono) simp
  with Cons.IH[of "a \<or> x = t"] Cons.prems(1) show ?case by simp
qed

lemma tagscan_sub_tag_gone:
  "\<not> is_space U t \<Longrightarrow> \<not> is_word U t \<Longrightarrow> tagscan U t a (sub_tag U t s) \<Longrightarrow> ucd_ok U \<Longrightarrow>
     a \<and> (\<exists>c \<in> set (run U s). is_word U c)"
proof (induction U t s arbitrary: a rule: sub_tag.induct)
  case (1 U t)
  then show ?case by simp
next
  case (2 U t c cs)
  note t = "2.prems"(1) "2.prems"(2)
  note ok = "2.prems"(4)
  show ?case
  proof (cases "c = t")
    case False
    with "2.prems"(3) have sc: "tagscan U t a (c # sub_tag U t cs)" by simp
    show ?thesis
    proof (cases "is_space U c")
      case True
      with sc have "tagscan U t False (sub_tag U t cs)" by simp
      from "2.IH"(3)[OF False t this ok] show ?thesis by simp
    next
      case ns: False
      show ?thesis
      proof (cases "a \<and> is_word U c")
        case True
        with ns show ?thesis by (simp add: run_Cons)
      next
        case nw: False
        with sc ns False have "tagscan U t a (sub_tag U t cs)" by auto
        from "2.IH"(3)[OF False t this ok] ns show ?thesis by (simp add: run_Cons)
      qed
    qed
  next
    case True
    show ?thesis
    proof (cases "tag_match U cs")
      case None
      with True "2.prems"(3) t have "tagscan U t True (sub_tag U t cs)" by simp
      from "2.IH"(1)[OF True None t this ok] None show ?thesis
        by (simp add: tag_match_None_iff[OF ok])
    next
      case (Some k)
      with True "2.prems"(3) have "tagscan U t a (sub_tag U t (drop k cs))" by simp
      from "2.IH"(2)[OF True Some t this ok]
      have a: a and w: "\<exists>c \<in> set (run U (drop k cs)). is_word U c" by simp_all
      from tag_match_Some_le[OF Some] have "k \<le> length (run U cs)" by simp
      then have "run U (drop k cs) = drop k (run U cs)" by (rule run_drop)
      with w have "\<exists>c \<in> set (run U cs). is_word U c" by (metis in_set_dropD)
      with a True t show ?thesis by (simp add: run_Cons)
    qed
  qed
qed

lemma tagscan_sub_tag_other:
  "\<not> is_space U t' \<Longrightarrow> tagscan U t a (sub_tag U t' s) \<Longrightarrow> tagscan U t a s"
proof (induction U t' s arbitrary: a rule: sub_tag.induct)
  case (1 U t')
  then show ?case by simp
next
  case (2 U t' c cs)
  note t' = "2.prems"(1)
  show ?case
  proof (cases "c = t' \<and> tag_match U cs \<noteq> None")
    case False
    then have r: "sub_tag U t' (c # cs) = c # sub_tag U t' cs" by (auto split: option.splits)
    have ih: "tagscan U t b (sub_tag U t' cs) \<Longrightarrow> tagscan U t b cs" for b
    proof (cases "c = t'")
      case True
      with False have n: "tag_match U cs = None" by simp
      assume "tagscan U t b (sub_tag U t' cs)"
      from "2.IH"(1)[OF True n t' this] show ?thesis .
    next
      case f: False
      assume "tagscan U t b (sub_tag U t' cs)"
      from "2.IH"(3)[OF f t' this] show ?thesis .
    qed
    from "2.prems"(2) r have "tagscan U t a (c # sub_tag U t' cs)" by simp
    then show ?thesis using ih by (auto split: if_splits)
  next
    case True
    then obtain k where c: "c = t'" and k: "tag_match U cs = Some k" by auto
    with "2.prems"(2) have "tagscan U t a (sub_tag U t' (drop k cs))" by simp
    from "2.IH"(2)[OF c k t' this] have d: "tagscan U t a (drop k cs)" .
    from tag_match_Some_le[OF k] have kl: "k \<le> length (run U cs)" by simp
    have "\<forall>x \<in> set (c # take k cs). \<not> is_space U x"
      using c t' take_run[OF kl] run_not_space[of _ U cs] by (auto dest: in_set_takeD)
    from tagscan_prepend[OF this d] show ?thesis by simp
  qed
qed


lemma drop_Cons_pred: "0 < n \<Longrightarrow> drop n (c # cs) = drop (n - 1) cs"
  by (cases n) simp_all

lemma http_not_space: "c \<in> set [104, 116, 116, 112] \<Longrightarrow> \<not> is_space U c"
  by (auto simp: is_space_def)

lemma url_match_parts:
  assumes "url_match U s = Some n"
  shows "s = [104, 116, 116, 112] @ run U (drop 4 s) @ drop n s" and "n = 4 + length (run U (drop 4 s))"
    and "run U (drop 4 s) \<noteq> []" and "drop n s = [] \<or> is_space U (hd (drop n s))"
proof -
  from assms have h: "take 4 s = [104, 116, 116, 112]" and r: "run U (drop 4 s) \<noteq> []"
    and n: "n = 4 + length (run U (drop 4 s))"
    by (auto simp: url_match_def split: if_splits)
  let ?u = "drop 4 s"
  have d: "drop n s = dropWhile (\<lambda>c. \<not> is_space U c) ?u"
    using n by (simp add: run_def dropWhile_eq_drop add.commute)
  have "s = take 4 s @ ?u" by simp
  also have "?u = run U ?u @ dropWhile (\<lambda>c. \<not> is_space U c) ?u" by (simp add: run_def)
  finally show "s = [104, 116, 116, 112] @ run U (drop 4 s) @ drop n s" using h d by simp
  show "n = 4 + length (run U (drop 4 s))" by (rule n)
  show "run U (drop 4 s) \<noteq> []" by (rule r)
  show "drop n s = [] \<or> is_space U (hd (drop n s))"
    unfolding d using hd_dropWhile[of "\<lambda>c. \<not> is_space U c" ?u] by blast
qed

lemma url_match_iff:
  "(url_match U s \<noteq> None) = (\<exists>c. \<not> is_space U c \<and> prefix ([104, 116, 116, 112] @ [c]) s)"
proof
  assume "url_match U s \<noteq> None"
  then obtain n where n: "url_match U s = Some n" by blast
  from url_match_parts(3)[OF n] obtain c r where cr: "run U (drop 4 s) = c # r" by (cases "run U (drop 4 s)") auto
  then have "c \<in> set (run U (drop 4 s))" by simp
  then have ns: "\<not> is_space U c" by (rule run_not_space)
  from url_match_parts(1)[OF n] cr have "s = ([104, 116, 116, 112] @ [c]) @ r @ drop n s" by simp
  then have "prefix ([104, 116, 116, 112] @ [c]) s" by (metis prefixI)
  with ns show "\<exists>c. \<not> is_space U c \<and> prefix ([104, 116, 116, 112] @ [c]) s" by blast
next
  assume "\<exists>c. \<not> is_space U c \<and> prefix ([104, 116, 116, 112] @ [c]) s"
  then obtain c r where ns: "\<not> is_space U c" and s: "s = ([104, 116, 116, 112] @ [c]) @ r" by (auto simp: prefix_def)
  then show "url_match U s \<noteq> None" by (simp add: url_match_def run_Cons)
qed

lemma sub_url_space: "is_space U c \<Longrightarrow> sub_url U (c # cs) = c # sub_url U cs"
proof -
  assume sp: "is_space U c"
  have "url_match U (c # cs) = None"
  proof (rule ccontr)
    assume "url_match U (c # cs) \<noteq> None"
    then obtain x where "prefix ([104, 116, 116, 112] @ [x]) (c # cs)" using url_match_iff by blast
    then have "c = 104" by simp
    with sp show False by (simp add: is_space_def)
  qed
  then show ?thesis by simp
qed

lemma sub_url_after_match:
  assumes "url_match U (c # cs) = Some n" and "\<forall>x \<in> set w. \<not> is_space U x"
    and "prefix w (sub_url U (drop (n - 1) cs))"
  shows "w = []"
proof -
  have n: "drop (n - 1) cs = drop n (c # cs)"
  proof -
    have "0 < n" using url_match_parts(2)[OF assms(1)] by simp
    then show ?thesis by (simp add: drop_Cons_pred)
  qed
  from url_match_parts(4)[OF assms(1)] n
  have "drop (n - 1) cs = [] \<or> is_space U (hd (drop (n - 1) cs))" by simp
  then show ?thesis
  proof
    assume "drop (n - 1) cs = []"
    with assms(3) show ?thesis by simp
  next
    assume sp: "is_space U (hd (drop (n - 1) cs))"
    show ?thesis
    proof (cases "drop (n - 1) cs")
      case Nil
      with assms(3) show ?thesis by simp
    next
      case (Cons x xs)
      with sp have "is_space U x" by simp
      with Cons assms(3) have "prefix w (x # sub_url U xs)" by (simp add: sub_url_space del: sub_url.simps)
      with assms(2) \<open>is_space U x\<close> show ?thesis by (cases w) auto
    qed
  qed
qed

lemma sub_url_prefix:
  "\<forall>x \<in> set w. \<not> is_space U x \<Longrightarrow> prefix w (sub_url U s) \<Longrightarrow> prefix w s"
proof (induction U s arbitrary: w rule: sub_url.induct)
  case (1 U)
  then show ?case by simp
next
  case (2 U c cs)
  show ?case
  proof (cases "url_match U (c # cs)")
    case None
    with "2.prems"(2) have p: "prefix w (c # sub_url U cs)" by simp
    show ?thesis
    proof (cases w)
      case Nil
      then show ?thesis by simp
    next
      case (Cons x xs)
      with p have x: "x = c" and "prefix xs (sub_url U cs)" by simp_all
      moreover have "\<forall>y \<in> set xs. \<not> is_space U y" using "2.prems"(1) Cons by simp
      ultimately have "prefix xs cs" using "2.IH"(1)[OF None] by blast
      with x Cons show ?thesis by simp
    qed
  next
    case (Some n)
    with "2.prems"(2) have "prefix w (sub_url U (drop (n - 1) cs))" by simp
    from sub_url_after_match[OF Some "2.prems"(1) this] show ?thesis by simp
  qed
qed

lemma has_url_iff:
  "has_url U s = (\<exists>c. \<not> is_space U c \<and> sublist ([104, 116, 116, 112] @ [c]) s)"
proof (induction s)
  case Nil
  show ?case by simp
next
  case (Cons x xs)
  have "sublist ([104, 116, 116, 112] @ [c]) (x # xs) =
          (prefix ([104, 116, 116, 112] @ [c]) (x # xs) \<or> sublist ([104, 116, 116, 112] @ [c]) xs)" for c
    by (rule sublist_Cons_right)
  with Cons url_match_iff[of U "x # xs"] show ?case by auto
qed

lemma no_url_sub_url: "\<not> has_url U (sub_url U s)"
proof (induction U s rule: sub_url.induct)
  case (1 U)
  show ?case by simp
next
  case (2 U c cs)
  show ?case
  proof (cases "url_match U (c # cs)")
    case None
    have "url_match U (c # sub_url U cs) = None"
    proof (rule ccontr)
      assume "url_match U (c # sub_url U cs) \<noteq> None"
      then obtain x where x: "\<not> is_space U x" "prefix ([104, 116, 116, 112] @ [x]) (c # sub_url U cs)"
        using url_match_iff by blast
      then have c: "c = 104" and p: "prefix ([116, 116, 112] @ [x]) (sub_url U cs)" by simp_all
      have "\<forall>y \<in> set ([116, 116, 112] @ [x]). \<not> is_space U y" using x(1) by (auto simp: is_space_def)
      from sub_url_prefix[OF this p] c have "prefix ([104, 116, 116, 112] @ [x]) (c # cs)" by simp
      with x(1) have "url_match U (c # cs) \<noteq> None" using url_match_iff by blast
      with None show False by simp
    qed
    with None "2.IH"(1)[OF None] show ?thesis by simp
  next
    case (Some n)
    with "2.IH"(2)[OF Some] show ?thesis by simp
  qed
qed

lemma tagscan_sub_url: "tagscan U t a (sub_url U s) \<Longrightarrow> tagscan U t a s"
proof (induction U s arbitrary: a rule: sub_url.induct)
  case (1 U)
  then show ?case by simp
next
  case (2 U c cs)
  show ?case
  proof (cases "url_match U (c # cs)")
    case None
    with "2.prems" have "tagscan U t a (c # sub_url U cs)" by simp
    then show ?thesis using "2.IH"(1)[OF None] by (auto split: if_splits)
  next
    case (Some n)
    with "2.prems" have "tagscan U t a (sub_url U (drop (n - 1) cs))" by simp
    from "2.IH"(2)[OF Some this] have d: "tagscan U t a (drop (n - 1) cs)" .
    have n: "drop (n - 1) cs = drop n (c # cs)"
      proof -
      have "0 < n" using url_match_parts(2)[OF Some] by simp
      then show ?thesis by (simp add: drop_Cons_pred)
    qed
    let ?m = "[104, 116, 116, 112] @ run U (drop 4 (c # cs))"
    have "\<forall>x \<in> set ?m. \<not> is_space U x"
      using run_not_space[of _ U "drop 4 (c # cs)"] http_not_space by auto
    from tagscan_prepend[OF this, of t a "drop n (c # cs)"] d n
    have "tagscan U t a (?m @ drop n (c # cs))" by simp
    with url_match_parts(1)[OF Some] show ?thesis by (metis append_assoc)
  qed
qed


lemma space_is_space: "is_space U 32"
  by (simp add: is_space_def)

lemma tagscan_dropWhile_space: "tagscan U t False (dropWhile (is_space U) s) = tagscan U t False s"
  by (induction s) auto

lemma tagscan_sub_spaces: "tagscan U t a (sub_spaces U s) = tagscan U t a s"
proof (induction U s arbitrary: a rule: sub_spaces.induct)
  case (1 U)
  show ?case by simp
next
  case (2 U c cs)
  show ?case
  proof (cases "is_space U c")
    case True
    then have "tagscan U t a (sub_spaces U (c # cs)) = tagscan U t False (sub_spaces U (dropWhile (is_space U) cs))"
      using space_is_space by simp
    also have "\<dots> = tagscan U t False (dropWhile (is_space U) cs)" by (rule "2.IH"(1)[OF True])
    also have "\<dots> = tagscan U t False cs" by (rule tagscan_dropWhile_space)
    finally show ?thesis using True by simp
  next
    case False
    with "2.IH"(2)[OF False] show ?thesis by simp
  qed
qed

lemma sub_spaces_prefix:
  "\<forall>x \<in> set w. \<not> is_space U x \<Longrightarrow> prefix w (sub_spaces U s) \<Longrightarrow> prefix w s"
proof (induction U s arbitrary: w rule: sub_spaces.induct)
  case (1 U)
  then show ?case by simp
next
  case (2 U c cs)
  show ?case
  proof (cases w)
    case Nil
    then show ?thesis by simp
  next
    case (Cons x xs)
    show ?thesis
    proof (cases "is_space U c")
      case True
      with "2.prems"(2) Cons have "x = 32" by simp
      with "2.prems"(1) Cons space_is_space show ?thesis by simp
    next
      case False
      with "2.prems"(2) Cons have x: "x = c" and p: "prefix xs (sub_spaces U cs)" by simp_all
      have "\<forall>y \<in> set xs. \<not> is_space U y" using "2.prems"(1) Cons by simp
      from "2.IH"(2)[OF False this p] x Cons show ?thesis by simp
    qed
  qed
qed

lemma sub_spaces_sublist:
  "\<forall>x \<in> set w. \<not> is_space U x \<Longrightarrow> w \<noteq> [] \<Longrightarrow> sublist w (sub_spaces U s) \<Longrightarrow> sublist w s"
proof (induction U s rule: sub_spaces.induct)
  case (1 U)
  then show ?case by simp
next
  case (2 U c cs)
  show ?case
  proof (cases "is_space U c")
    case True
    with "2.prems"(3) have
      "prefix w (32 # sub_spaces U (dropWhile (is_space U) cs)) \<or> sublist w (sub_spaces U (dropWhile (is_space U) cs))"
      by (simp add: sublist_Cons_right)
    moreover have "\<not> prefix w (32 # sub_spaces U (dropWhile (is_space U) cs))"
      using "2.prems"(1,2) space_is_space by (cases w) auto
    ultimately have "sublist w (sub_spaces U (dropWhile (is_space U) cs))" by blast
    from "2.IH"(1)[OF True "2.prems"(1,2) this] have "sublist w (dropWhile (is_space U) cs)" .
    moreover have "sublist (dropWhile (is_space U) cs) (c # cs)"
      by (metis suffix_dropWhile suffix_imp_sublist sublist_Cons_right)
    ultimately show ?thesis by (rule sublist_order.order.trans)
  next
    case False
    with "2.prems"(3) have "prefix w (c # sub_spaces U cs) \<or> sublist w (sub_spaces U cs)"
      by (simp add: sublist_Cons_right)
    then show ?thesis
    proof
      assume "prefix w (c # sub_spaces U cs)"
      then have "prefix w (sub_spaces U (c # cs))" using False by simp
      from sub_spaces_prefix[OF "2.prems"(1) this] show ?thesis by (rule prefix_imp_sublist)
    next
      assume "sublist w (sub_spaces U cs)"
      from "2.IH"(2)[OF False "2.prems"(1,2) this] show ?thesis by (simp add: sublist_Cons_right)
    qed
  qed
qed

lemma has_url_sub_spaces: "has_url U (sub_spaces U s) \<Longrightarrow> has_url U s"
proof -
  assume "has_url U (sub_spaces U s)"
  then obtain c where c: "\<not> is_space U c" "sublist ([104, 116, 116, 112] @ [c]) (sub_spaces U s)"
    using has_url_iff by blast
  have "\<forall>x \<in> set ([104, 116, 116, 112] @ [c]). \<not> is_space U x" using c(1) by (auto simp: is_space_def)
  from sub_spaces_sublist[OF this _ c(2)] have "sublist ([104, 116, 116, 112] @ [c]) s" by simp
  with c(1) show ?thesis using has_url_iff by blast
qed

lemma set_sub_tag: "set (sub_tag U t s) \<subseteq> set s"
proof (induction U t s rule: sub_tag.induct)
  case (1 U t)
  show ?case by simp
next
  case (2 U t c cs)
  show ?case
  proof (cases "c = t")
    case False
    with "2.IH"(3)[OF False] show ?thesis by auto
  next
    case True
    show ?thesis
    proof (cases "tag_match U cs")
      case None
      with True "2.IH"(1)[OF True None] show ?thesis by auto
    next
      case (Some k)
      with True "2.IH"(2)[OF True Some] set_drop_subset[of k cs] show ?thesis by auto
    qed
  qed
qed

lemma set_sub_url: "set (sub_url U s) \<subseteq> set s"
proof (induction U s rule: sub_url.induct)
  case (1 U)
  show ?case by simp
next
  case (2 U c cs)
  show ?case
  proof (cases "url_match U (c # cs)")
    case None
    with "2.IH"(1)[OF None] show ?thesis by auto
  next
    case (Some n)
    with "2.IH"(2)[OF Some] set_drop_subset[of "n - 1" cs] show ?thesis by auto
  qed
qed

lemma set_sub_spaces: "set (sub_spaces U s) \<subseteq> insert 32 (set s)"
proof (induction U s rule: sub_spaces.induct)
  case (1 U)
  show ?case by simp
next
  case (2 U c cs)
  show ?case
  proof (cases "is_space U c")
    case True
    with "2.IH"(1)[OF True] show ?thesis by (auto dest: set_dropWhileD)
  next
    case False
    with "2.IH"(2)[OF False] show ?thesis by auto
  qed
qed

lemma has_digit_quote_iff: "has_digit_quote s = (\<exists>c \<in> set s. is_digit c \<or> c = 34)"
  by (simp add: has_digit_quote_def list_ex_iff)

lemma no_digit_clean_regex: "\<not> has_digit_quote (clean_regex U t)"
proof
  let ?a = "sub_tag U 35 (sub_digits_quotes t)"
  let ?b = "sub_tag U 64 ?a"
  let ?c = "sub_url U ?b"
  have 1: "set ?a \<subseteq> set (sub_digits_quotes t)" by (rule set_sub_tag)
  have 2: "set ?b \<subseteq> set ?a" by (rule set_sub_tag)
  have 3: "set ?c \<subseteq> set ?b" by (rule set_sub_url)
  have 4: "set (clean_regex U t) \<subseteq> insert 32 (set ?c)"
    unfolding clean_regex_def by (rule set_sub_spaces)
  have d: "\<forall>c \<in> set (sub_digits_quotes t). \<not> (is_digit c \<or> c = 34)"
    by (simp add: sub_digits_quotes_def)
  assume "has_digit_quote (clean_regex U t)"
  then obtain c where c: "c \<in> set (clean_regex U t)" "is_digit c \<or> c = 34"
    unfolding has_digit_quote_iff by blast
  from c(2) have "c \<noteq> 32" by (auto simp: is_digit_def)
  with c(1) 4 have "c \<in> set ?c" by blast
  with 1 2 3 have "c \<in> set (sub_digits_quotes t)" by blast
  with d c(2) show False by blast
qed

lemma no_hashtag_clean_regex:
  assumes ok: "ucd_ok U"
  shows "\<not> tagscan U 35 False (clean_regex U t)"
proof
  assume "tagscan U 35 False (clean_regex U t)"
  then have "tagscan U 35 False (sub_url U (sub_tag U 64 (sub_tag U 35 (sub_digits_quotes t))))"
    by (simp add: clean_regex_def tagscan_sub_spaces)
  then have "tagscan U 35 False (sub_tag U 64 (sub_tag U 35 (sub_digits_quotes t)))"
    by (rule tagscan_sub_url)
  then have "tagscan U 35 False (sub_tag U 35 (sub_digits_quotes t))"
    by (rule tagscan_sub_tag_other[OF tag_chars(3)])
  from tagscan_sub_tag_gone[OF tag_chars(1) tag_chars(2) this ok] show False by simp
qed

lemma no_mention_clean_regex:
  assumes ok: "ucd_ok U"
  shows "\<not> tagscan U 64 False (clean_regex U t)"
proof
  assume "tagscan U 64 False (clean_regex U t)"
  then have "tagscan U 64 False (sub_url U (sub_tag U 64 (sub_tag U 35 (sub_digits_quotes t))))"
    by (simp add: clean_regex_def tagscan_sub_spaces)
  then have "tagscan U 64 False (sub_tag U 64 (sub_tag U 35 (sub_digits_quotes t)))"
    by (rule tagscan_sub_url)
  from tagscan_sub_tag_gone[OF tag_chars(3) tag_chars(4) this ok] show False by simp
qed

lemma no_url_clean_regex: "\<not> has_url U (clean_regex U t)"
  unfolding clean_regex_def using has_url_sub_spaces no_url_sub_url by blast


section \<open>Properties of clean_text\<close>

lemma sublist_strip: "sublist (strip U s) s"
proof -
  let ?d = "dropWhile (is_space U) s"
  have "suffix (dropWhile (is_space U) (rev ?d)) (rev ?d)" by (rule suffix_dropWhile)
  then have "prefix (strip U s) ?d" by (simp add: strip_def suffix_to_prefix)
  then have "sublist (strip U s) ?d" by (rule prefix_imp_sublist)
  moreover have "sublist ?d s" by (simp add: suffix_dropWhile suffix_imp_sublist)
  ultimately show ?thesis by (rule sublist_order.order.trans)
qed

lemma tagscan_append_right: "tagscan U t a xs \<Longrightarrow> tagscan U t a (xs @ ys)"
  by (induction xs arbitrary: a) (auto split: if_splits)

lemma tagscan_append_left: "tagscan U t False ys \<Longrightarrow> tagscan U t a (xs @ ys)"
proof (induction xs arbitrary: a)
  case Nil
  then show ?case using tagscan_mono[of U t False ys a] by simp
next
  case (Cons x xs)
  then show ?case by simp
qed

lemma tagscan_sublist: "sublist x y \<Longrightarrow> tagscan U t False x \<Longrightarrow> tagscan U t False y"
  by (auto simp: sublist_def intro: tagscan_append_left tagscan_append_right)

lemma tagscan_space_split:
  "is_space U sp \<Longrightarrow> tagscan U t a (xs @ sp # ys) \<Longrightarrow> tagscan U t a xs \<or> tagscan U t False ys"
  by (induction xs arbitrary: a) (auto split: if_splits)

lemma tagscan_join:
  "tagscan U t a (join [32] xs) \<Longrightarrow> \<exists>x \<in> set xs. tagscan U t a x"
proof (induction "[32::nat]" xs arbitrary: a rule: join.induct)
  case 1
  then show ?case by simp
next
  case (2 x)
  then show ?case by simp
next
  case (3 x y ys)
  from "3.prems" have "tagscan U t a (x @ 32 # join [32] (y # ys))" by simp
  from tagscan_space_split[OF space_is_space this]
  show ?case
  proof
    assume "tagscan U t a x"
    then show ?thesis by simp
  next
    assume "tagscan U t False (join [32] (y # ys))"
    from "3.hyps"[OF this] obtain z where "z \<in> set (y # ys)" "tagscan U t False z" by blast
    then show ?thesis using tagscan_mono[of U t False z a] by auto
  qed
qed

lemma has_url_sublist: "sublist x y \<Longrightarrow> has_url U x \<Longrightarrow> has_url U y"
proof -
  assume xy: "sublist x y" and "has_url U x"
  then obtain c where c: "\<not> is_space U c" "sublist ([104, 116, 116, 112] @ [c]) x" using has_url_iff by blast
  from c(2) xy have "sublist ([104, 116, 116, 112] @ [c]) y" by (rule sublist_order.order.trans)
  with c(1) show "has_url U y" using has_url_iff by blast
qed

lemma spacefree_sublist_join:
  "\<forall>c \<in> set w. \<not> is_space U c \<Longrightarrow> w \<noteq> [] \<Longrightarrow> sublist w (join [32] xs) \<Longrightarrow>
     \<exists>x \<in> set xs. sublist w x"
proof (induction "[32::nat]" xs rule: join.induct)
  case 1
  then show ?case by simp
next
  case (2 x)
  then show ?case by simp
next
  case (3 x y ys)
  let ?r = "join [32] (y # ys)"
  from "3.prems"(3) have "sublist w (x @ 32 # ?r)" by simp
  then consider "sublist w x" | "sublist w (32 # ?r)"
    | w1 w2 where "w = w1 @ w2" "suffix w1 x" "prefix w2 (32 # ?r)"
    unfolding sublist_append by blast
  then show ?case
  proof cases
    case 1
    then show ?thesis by simp
  next
    case 2
    then have "prefix w (32 # ?r) \<or> sublist w ?r" by (simp add: sublist_Cons_right)
    moreover have "\<not> prefix w (32 # ?r)"
      using "3.prems"(1,2) space_is_space by (cases w) auto
    ultimately have "sublist w ?r" by blast
    from "3.hyps"[OF "3.prems"(1,2) this] show ?thesis by simp
  next
    case 3
    have "w2 = []"
    proof (cases w2)
      case Nil
      then show ?thesis .
    next
      case (Cons c cs)
      with 3(3) have "c = 32" by simp
      moreover have "c \<in> set w" using 3(1) Cons by simp
      ultimately show ?thesis using "3.prems"(1) space_is_space by blast
    qed
    with 3(1,2) have "suffix w x" by simp
    then have "sublist w x" by (rule suffix_imp_sublist)
    then show ?thesis by simp
  qed
qed

lemma has_url_join: "has_url U (join [32] xs) \<Longrightarrow> \<exists>x \<in> set xs. has_url U x"
proof -
  assume "has_url U (join [32] xs)"
  then obtain c where c: "\<not> is_space U c" "sublist ([104, 116, 116, 112] @ [c]) (join [32] xs)"
    using has_url_iff by blast
  have "\<forall>x \<in> set ([104, 116, 116, 112] @ [c]). \<not> is_space U x" using c(1) by (auto simp: is_space_def)
  from spacefree_sublist_join[OF this _ c(2)] obtain x where "x \<in> set xs" "sublist ([104, 116, 116, 112] @ [c]) x"
    by auto
  with c(1) show ?thesis using has_url_iff by blast
qed

lemma set_join: "set (join [32] xs) \<subseteq> insert 32 (\<Union> (set ` set xs))"
  by (induction "[32::nat]" xs rule: join.induct) auto

lemma has_digit_quote_join:
  "has_digit_quote (join [32] xs) \<Longrightarrow> \<exists>x \<in> set xs. has_digit_quote x"
proof -
  assume "has_digit_quote (join [32] xs)"
  then obtain c where c: "c \<in> set (join [32] xs)" "is_digit c \<or> c = 34"
    unfolding has_digit_quote_iff by blast
  then have "c \<noteq> 32" by (auto simp: is_digit_def)
  with c(1) set_join[of xs] obtain x where "x \<in> set xs" "c \<in> set x" by auto
  with c(2) show ?thesis unfolding has_digit_quote_iff by blast
qed

lemma has_digit_quote_sublist: "sublist x y \<Longrightarrow> has_digit_quote x \<Longrightarrow> has_digit_quote y"
proof -
  assume xy: "sublist x y" and h: "has_digit_quote x"
  from xy have "set x \<subseteq> set y" by (rule set_mono_sublist)
  with h show "has_digit_quote y" unfolding has_digit_quote_iff by blast
qed

text \<open>
  The last steps of \<^verbatim>\<open>clean_text\<close> (split, trim, drop duplicates, join, trim) cannot
  create a match of a pattern that is found only inside a slice and never across a
  single space.
\<close>

lemma clean_text_no_new_match:
  assumes sl: "slicing st"
    and mono: "\<And>x y. sublist x y \<Longrightarrow> P x \<Longrightarrow> P y"
    and jn: "\<And>xs. P (join [32] xs) \<Longrightarrow> \<exists>x \<in> set xs. P x"
    and clean: "\<not> P (clean_regex U t)"
  shows "\<not> P (clean_text U st t lang)"
proof
  let ?ss = "get_sentences st (clean_regex U t) lang"
  assume "P (clean_text U st t lang)"
  then have "P (strip U (join [32] (exclude_duplicate_loop U [] ?ss)))"
    by (simp add: clean_text_def exclude_duplicate_sentences_def)
  with mono[OF sublist_strip] have "P (join [32] (exclude_duplicate_loop U [] ?ss))" by blast
  from jn[OF this] obtain x where x: "x \<in> set (exclude_duplicate_loop U [] ?ss)" "P x" by blast
  from x(1) obtain s where s: "s \<in> set ?ss" "x = strip U s"
    by (auto simp: set_exclude_duplicate_loop)
  from s(1) sl have "sublist s (clean_regex U t)" by (auto simp: slicing_def get_sentences_def)
  with sublist_strip[of U s] s(2) have "sublist x (clean_regex U t)"
    by (metis sublist_order.order.trans)
  from mono[OF this x(2)] clean show False by blast
qed


lemma split_after_stop_slices:
  "s \<in> set (split_after_stop cur rest) \<Longrightarrow> sublist s (cur @ rest)"
proof (induction cur rest rule: split_after_stop.induct)
  case (1 cur)
  then show ?case by (auto split: if_splits)
next
  case (2 cur c)
  then show ?case by simp
next
  case (3 cur c d cs)
  show ?case
  proof (cases "is_stop c \<and> d = 32")
    case True
    with "3.prems" have "s = cur @ [c] \<or> s \<in> set (split_after_stop [] cs)" by simp
    then show ?thesis
    proof
      assume "s = cur @ [c]"
      then have "prefix s (cur @ c # d # cs)" by simp
      then show ?thesis by (rule prefix_imp_sublist)
    next
      assume "s \<in> set (split_after_stop [] cs)"
      from "3.IH"(1)[OF True this] have "sublist s cs" by simp
      moreover have "sublist cs (cur @ c # d # cs)"
        by (metis append_Cons append_Nil append_assoc sublist_append_leftI)
      ultimately show ?thesis by (rule sublist_order.order.trans)
    qed
  next
    case False
    with "3.prems" have "s \<in> set (split_after_stop (cur @ [c]) (d # cs))" by auto
    from "3.IH"(2)[OF False this] show ?thesis by simp
  qed
qed

lemma slicing_example_splitter: "slicing example_splitter"
  unfolding slicing_def example_splitter_def using split_after_stop_slices[of _ "[]"] by simp

lemma ucd_ok_example_ucd: "ucd_ok example_ucd"
  by (auto simp: ucd_ok_def is_space_def is_word_def example_ucd_def)

text \<open>
  Claim C8, as amended. For every text (any sequence of Unicode code points) and
  language, and every sentence splitter that returns slices of its text, the result of
  \<^verbatim>\<open>clean_text\<close> has no match of the regular expressions that \<^verbatim>\<open>clean_text\<close> deletes:
  \<^verbatim>\<open>[0-9"]\<close>, \<^verbatim>\<open>#[\S]+\b\<close>, \<^verbatim>\<open>@[\S]+\b\<close> and \<^verbatim>\<open>https?\S+\<close>. The two tag patterns end at a word
  boundary, so they match a tag character only when a word character follows in the
  same run. The classes \<^verbatim>\<open>\s\<close> and \<^verbatim>\<open>\w\<close> are those of any Unicode database in which no
  whitespace character is a word character.
\<close>

theorem clean_text_no_patterns:
  assumes "ucd_ok U" and "slicing st"
  shows "\<not> has_digit_quote (clean_text U st t lang)
       \<and> \<not> has_tag U 35 (clean_text U st t lang)
       \<and> \<not> has_tag U 64 (clean_text U st t lang)
       \<and> \<not> has_url U (clean_text U st t lang)"
proof -
  have 1: "\<not> has_digit_quote (clean_text U st t lang)"
    using assms(2) has_digit_quote_sublist has_digit_quote_join no_digit_clean_regex
    by (rule clean_text_no_new_match)
  have 2: "\<not> tagscan U 35 False (clean_text U st t lang)"
    using assms(2) tagscan_sublist tagscan_join no_hashtag_clean_regex[OF assms(1)]
    by (rule clean_text_no_new_match)
  have 3: "\<not> tagscan U 64 False (clean_text U st t lang)"
    using assms(2) tagscan_sublist tagscan_join no_mention_clean_regex[OF assms(1)]
    by (rule clean_text_no_new_match)
  have 4: "\<not> has_url U (clean_text U st t lang)"
    using assms(2) has_url_sublist has_url_join no_url_clean_regex
    by (rule clean_text_no_new_match)
  from 1 2 3 4 show ?thesis by (simp add: has_tag_tagscan[OF assms(1)] tag_chars)
qed

text \<open>
  Three runs: an ASCII text; a text with characters above ASCII, written as code points
  (\<^verbatim>\<open>caf\<close>, U+00E9, a space, \<^verbatim>\<open>#\<close>, U+00E9, \<^verbatim>\<open>t\<close>, U+00E9, the no-break space U+00A0,
  \<^verbatim>\<open>@\<close>, the Cyrillic letter U+0436 twice, a space, \<^verbatim>\<open>ok\<close>); and \<^verbatim>\<open>#\<close> followed by U+00E9,
  which is deleted as a whole.
\<close>

theorem clean_text_no_patterns_witness:
  "ucd_ok example_ucd \<and> slicing example_splitter
   \<and> clean_text example_ucd example_splitter
        (ustr ''see #tag and @user at https://a.b/c 42 #- ok'') (ustr ''en'')
       = ustr ''see and at #- ok''
   \<and> \<not> has_digit_quote (ustr ''see and at #- ok'')
   \<and> \<not> has_tag example_ucd 35 (ustr ''see and at #- ok'')
   \<and> \<not> has_tag example_ucd 64 (ustr ''see and at #- ok'')
   \<and> \<not> has_url example_ucd (ustr ''see and at #- ok'')
   \<and> clean_text example_ucd example_splitter
        [99, 97, 102, 233, 32, 35, 233, 116, 233, 160, 64, 1078, 1078, 32, 111, 107] (ustr ''fr'')
       = [99, 97, 102, 233, 32, 111, 107]
   \<and> \<not> has_tag example_ucd 35 [99, 97, 102, 233, 32, 111, 107]
   \<and> \<not> has_tag example_ucd 64 [99, 97, 102, 233, 32, 111, 107]
   \<and> clean_text example_ucd example_splitter [35, 233] (ustr ''fr'') = []"
proof -
  have c: "clean_text example_ucd example_splitter
        (ustr ''see #tag and @user at https://a.b/c 42 #- ok'') (ustr ''en'')
       = ustr ''see and at #- ok''"
    by (simp add: clean_text_def clean_regex_def exclude_duplicate_sentences_def regex_eval)
  have d: "clean_text example_ucd example_splitter
        [99, 97, 102, 233, 32, 35, 233, 116, 233, 160, 64, 1078, 1078, 32, 111, 107] (ustr ''fr'')
       = [99, 97, 102, 233, 32, 111, 107]"
    by (simp add: clean_text_def clean_regex_def exclude_duplicate_sentences_def regex_eval
        example_ucd_def)
  have e: "clean_text example_ucd example_splitter [35, 233] (ustr ''fr'') = []"
    by (simp add: clean_text_def clean_regex_def exclude_duplicate_sentences_def regex_eval
        example_ucd_def)
  note a = clean_text_no_patterns[OF ucd_ok_example_ucd slicing_example_splitter,
      of "ustr ''see #tag and @user at https://a.b/c 42 #- ok''" "ustr ''en''", unfolded c]
  note b = clean_text_no_patterns[OF ucd_ok_example_ucd slicing_example_splitter,
      of "[99, 97, 102, 233, 32, 35, 233, 116, 233, 160, 64, 1078, 1078, 32, 111, 107]"
        "ustr ''fr''", unfolded d]
  from a b c d e ucd_ok_example_ucd slicing_example_splitter
  show ?thesis by blast
qed

text \<open>
  Claim C8 as stated fails: a tag character followed by a run without word characters
  is not deleted, so the result can hold \<^verbatim>\<open>#\<close> or \<^verbatim>\<open>@\<close> followed by a non-whitespace run.
\<close>

theorem clean_text_hashtag_counterexample:
  "clean_text example_ucd example_splitter (ustr ''#-'') (ustr ''en'') = ustr ''#-''
   \<and> spec_tag_pattern example_ucd 35 (clean_text example_ucd example_splitter (ustr ''#-'') (ustr ''en''))
   \<and> clean_text example_ucd example_splitter (ustr ''@-'') (ustr ''en'') = ustr ''@-''
   \<and> spec_tag_pattern example_ucd 64 (clean_text example_ucd example_splitter (ustr ''@-'') (ustr ''en''))"
  by (simp add: clean_text_def clean_regex_def exclude_duplicate_sentences_def regex_eval)

section \<open>Properties of RocAucMeter\<close>

lemma RocAucMeter_update_arrays:
  "y_true (fst (RocAucMeter_update auc m yt lg)) = y_true m @ yt
   \<and> y_pred (fst (RocAucMeter_update auc m yt lg)) = y_pred m @ map softmax1 lg"
  by (simp add: RocAucMeter_update_def Let_def split: sum.splits)

lemma RocAucMeter_update_ok:
  assumes "RocAucMeter_update auc m yt lg = (m', None)"
  shows "y_true m' = y_true m @ yt \<and> y_pred m' = y_pred m @ map softmax1 lg
       \<and> auc (last_10000 (y_true m')) (last_10000 (y_pred m')) = Inr (RocAucMeter_avg m')"
  using assms
  by (auto simp: RocAucMeter_update_def RocAucMeter_avg_def Let_def split: sum.splits)

lemma RocAucMeter_update_raises:
  assumes "RocAucMeter_update auc m yt lg = (m', Some e)"
  shows "y_true m' = y_true m @ yt \<and> y_pred m' = y_pred m @ map softmax1 lg
       \<and> RocAucMeter_avg m' = RocAucMeter_avg m
       \<and> auc (last_10000 (y_true m')) (last_10000 (y_pred m')) = Inl e"
  using assms
  by (auto simp: RocAucMeter_update_def RocAucMeter_avg_def Let_def split: sum.splits)

lemma RocAucMeter_updates_ok:
  "RocAucMeter_updates auc m bs = (m', None) \<Longrightarrow>
     y_true m' = y_true m @ concat (map fst bs)
   \<and> y_pred m' = y_pred m @ concat (map (\<lambda>b. map softmax1 (snd b)) bs)
   \<and> (bs \<noteq> [] \<longrightarrow> auc (last_10000 (y_true m')) (last_10000 (y_pred m')) = Inr (RocAucMeter_avg m'))"
proof (induction bs arbitrary: m)
  case Nil
  then show ?case by simp
next
  case (Cons b bs)
  obtain ma r where u: "RocAucMeter_update auc m (fst b) (snd b) = (ma, r)"
    by (cases "RocAucMeter_update auc m (fst b) (snd b)")
  with Cons.prems have r: "r = None" and rest: "RocAucMeter_updates auc ma bs = (m', None)"
    by (auto split: option.splits)
  from u r have u': "RocAucMeter_update auc m (fst b) (snd b) = (ma, None)" by simp
  note a = RocAucMeter_update_ok[OF u']
  note ih = Cons.IH[OF rest]
  have p1: "y_true m' = y_true m @ concat (map fst (b # bs))"
    using a ih by simp
  have p2: "y_pred m' = y_pred m @ concat (map (\<lambda>b. map softmax1 (snd b)) (b # bs))"
    using a ih by simp
  have p3: "auc (last_10000 (y_true m')) (last_10000 (y_pred m')) = Inr (RocAucMeter_avg m')"
  proof (cases "bs = []")
    case True
    with rest have "m' = ma" by simp
    with a show ?thesis by blast
  next
    case False
    with ih show ?thesis by blast
  qed
  from p1 p2 p3 show ?case by blast
qed

lemma last_10000_eq: "last_10000 xs = (if length xs \<le> 10000 then xs else drop (length xs - 10000) xs)"
  by (simp add: last_10000_def)

text \<open>
  Claim C7. Right after \<^verbatim>\<open>reset\<close> the meter holds the two seed pairs and \<^verbatim>\<open>avg\<close> is 0.
  An \<^verbatim>\<open>update\<close> appends the labels and the class-1 probabilities of the batch to the
  two arrays and, when it returns, leaves in \<^verbatim>\<open>avg\<close> the value of \<^verbatim>\<open>roc_auc_score\<close> on the
  last 10000 entries of each array; when \<^verbatim>\<open>roc_auc_score\<close> raises, the arrays have still
  grown and \<^verbatim>\<open>avg\<close> is the old one. After any sequence of updates that all return, the
  arrays are the seeds followed by every batch, nothing removed, and \<^verbatim>\<open>avg\<close> is
  the score of their last 10000 entries.
\<close>

theorem RocAucMeter_rolling_window:
  "RocAucMeter_avg (RocAucMeter_reset m) = 0
   \<and> y_true (RocAucMeter_reset m) = [0, 1] \<and> y_pred (RocAucMeter_reset m) = [1/2, 1/2]
   \<and> (RocAucMeter_update auc m yt lg = (ma, None) \<longrightarrow>
         y_true ma = y_true m @ yt \<and> y_pred ma = y_pred m @ map softmax1 lg
       \<and> auc (last_10000 (y_true ma)) (last_10000 (y_pred ma)) = Inr (RocAucMeter_avg ma))
   \<and> (RocAucMeter_update auc m yt lg = (ma, Some e) \<longrightarrow>
         y_true ma = y_true m @ yt \<and> y_pred ma = y_pred m @ map softmax1 lg
       \<and> RocAucMeter_avg ma = RocAucMeter_avg m)
   \<and> (bs \<noteq> [] \<and> RocAucMeter_updates auc (RocAucMeter_reset m) bs = (mb, None) \<longrightarrow>
         y_true mb = [0, 1] @ concat (map fst bs)
       \<and> y_pred mb = [1/2, 1/2] @ concat (map (\<lambda>b. map softmax1 (snd b)) bs)
       \<and> length (y_true mb) = 2 + sum_list (map (\<lambda>b. length (fst b)) bs)
       \<and> auc (last_10000 (y_true mb)) (last_10000 (y_pred mb)) = Inr (RocAucMeter_avg mb))
   \<and> last_10000 xs = (if length xs \<le> 10000 then xs else drop (length xs - 10000) xs)
   \<and> length (last_10000 xs) = min 10000 (length xs)"
proof -
  have 1: "RocAucMeter_avg (RocAucMeter_reset m) = 0
     \<and> y_true (RocAucMeter_reset m) = [0, 1] \<and> y_pred (RocAucMeter_reset m) = [1/2, 1/2]"
    by (simp add: RocAucMeter_avg_def RocAucMeter_reset_def)
  have 2: "RocAucMeter_update auc m yt lg = (ma, None) \<longrightarrow>
         y_true ma = y_true m @ yt \<and> y_pred ma = y_pred m @ map softmax1 lg
       \<and> auc (last_10000 (y_true ma)) (last_10000 (y_pred ma)) = Inr (RocAucMeter_avg ma)"
    using RocAucMeter_update_ok by blast
  have 3: "RocAucMeter_update auc m yt lg = (ma, Some e) \<longrightarrow>
         y_true ma = y_true m @ yt \<and> y_pred ma = y_pred m @ map softmax1 lg
       \<and> RocAucMeter_avg ma = RocAucMeter_avg m"
    using RocAucMeter_update_raises by blast
  have 4: "bs \<noteq> [] \<and> RocAucMeter_updates auc (RocAucMeter_reset m) bs = (mb, None) \<longrightarrow>
         y_true mb = [0, 1] @ concat (map fst bs)
       \<and> y_pred mb = [1/2, 1/2] @ concat (map (\<lambda>b. map softmax1 (snd b)) bs)
       \<and> length (y_true mb) = 2 + sum_list (map (\<lambda>b. length (fst b)) bs)
       \<and> auc (last_10000 (y_true mb)) (last_10000 (y_pred mb)) = Inr (RocAucMeter_avg mb)"
  proof
    assume h: "bs \<noteq> [] \<and> RocAucMeter_updates auc (RocAucMeter_reset m) bs = (mb, None)"
    have r: "y_true (RocAucMeter_reset m) = [0, 1]" "y_pred (RocAucMeter_reset m) = [1/2, 1/2]"
      using 1 by blast+
    from RocAucMeter_updates_ok[of auc "RocAucMeter_reset m" bs mb, unfolded r] h
    have a: "y_true mb = [0, 1] @ concat (map fst bs)"
      and b: "y_pred mb = [1/2, 1/2] @ concat (map (\<lambda>b. map softmax1 (snd b)) bs)"
      and c: "auc (last_10000 (y_true mb)) (last_10000 (y_pred mb)) = Inr (RocAucMeter_avg mb)"
      by blast+
    have "length (y_true mb) = 2 + sum_list (map (\<lambda>b. length (fst b)) bs)"
      unfolding a by (simp add: length_concat comp_def)
    with a b c show "y_true mb = [0, 1] @ concat (map fst bs)
       \<and> y_pred mb = [1/2, 1/2] @ concat (map (\<lambda>b. map softmax1 (snd b)) bs)
       \<and> length (y_true mb) = 2 + sum_list (map (\<lambda>b. length (fst b)) bs)
       \<and> auc (last_10000 (y_true mb)) (last_10000 (y_pred mb)) = Inr (RocAucMeter_avg mb)"
      by blast
  qed
  have 5: "last_10000 xs = (if length xs \<le> 10000 then xs else drop (length xs - 10000) xs)
     \<and> length (last_10000 xs) = min 10000 (length xs)"
    by (auto simp: last_10000_def)
  from 1 2 3 4 5 show ?thesis by blast
qed

lemma softmax1_zero: "softmax1 (0, 0) = 1/2"
  by (simp add: softmax1_def)

theorem RocAucMeter_rolling_window_witness:
  "RocAucMeter_updates exact_roc_auc (RocAucMeter_reset RocAucMeter_init) [([1, 0], [(0, 0), (0, 0)])]
     = (\<lparr>y_true = [0, 1, 1, 0], y_pred = [1/2, 1/2, 1/2, 1/2], score = 1/2\<rparr>, None)
   \<and> exact_roc_auc (last_10000 [0, 1, 1, 0]) (last_10000 [1/2, 1/2, 1/2, 1/2]) = Inr (1/2)
   \<and> RocAucMeter_avg (RocAucMeter_reset RocAucMeter_init) = 0"
proof -
  have l: "last_10000 [0, 1, 1, 0 :: int] = [0, 1, 1, 0]"
    "last_10000 [1/2, 1/2, 1/2, 1/2 :: real] = [1/2, 1/2, 1/2, 1/2]"
    by (simp_all add: last_10000_def)
  have a: "exact_roc_auc [0, 1, 1, 0] [1/2, 1/2, 1/2, 1/2] = Inr (1/2)"
    by (simp add: exact_roc_auc_def)
  have u: "RocAucMeter_updates exact_roc_auc (RocAucMeter_reset RocAucMeter_init) [([1, 0], [(0, 0), (0, 0)])]
     = (\<lparr>y_true = [0, 1, 1, 0], y_pred = [1/2, 1/2, 1/2, 1/2], score = 1/2\<rparr>, None)"
    by (simp add: RocAucMeter_update_def RocAucMeter_reset_def RocAucMeter_init_def softmax1_zero l a)
  note t = RocAucMeter_rolling_window[where m = RocAucMeter_init and auc = exact_roc_auc
      and bs = "[([1, 0], [(0, 0), (0, 0)])]"
      and mb = "\<lparr>y_true = [0, 1, 1, 0], y_pred = [1/2, 1/2, 1/2, 1/2], score = 1/2\<rparr>"
      and yt = "[]" and lg = "[]" and ma = RocAucMeter_init and e = ValueError
      and xs = "[] :: nat list"]
  from t u have "exact_roc_auc (last_10000 [0, 1, 1, 0]) (last_10000 [1/2, 1/2, 1/2, 1/2]) = Inr (1/2)"
    by (simp add: RocAucMeter_avg_def)
  moreover from t have "RocAucMeter_avg (RocAucMeter_reset RocAucMeter_init) = 0" by blast
  ultimately show ?thesis using u by simp
qed

section \<open>Properties of train_one_epoch\<close>

lemma log_step_frame:
  "log_step cfg T losses step = Inr T1 \<Longrightarrow>
     model T1 = model T \<and> optimizer T1 = optimizer T \<and> scheduler T1 = scheduler T
   \<and> final_scores T1 = final_scores T \<and> model_training T1 = model_training T"
  by (auto simp: log_step_def split: if_splits)

lemma log_step_total:
  "\<not> (verbose cfg \<and> verbose_step cfg = 0) \<Longrightarrow> \<exists>T1. log_step cfg T losses step = Inr T1"
  by (auto simp: log_step_def)

lemma log_step_quiet: "\<not> verbose cfg \<Longrightarrow> log_step cfg T losses step = Inr T"
  by (simp add: log_step_def)

lemma train_step_skipped:
  "skipped cfg b \<Longrightarrow>
     train_step L cfg (T, losses) step b =
       (case log_step cfg T losses step of Inl e \<Rightarrow> Inl e | Inr T1 \<Rightarrow> Inr (T1, losses))"
  by (simp add: train_step_def split: sum.splits)

lemma train_step_quiet_skipped:
  "\<not> verbose cfg \<Longrightarrow> skipped cfg b \<Longrightarrow> train_step L cfg S step b = Inr S"
  by (cases S) (simp add: train_step_skipped log_step_quiet)

lemma train_step_quiet_step:
  "\<not> verbose cfg \<Longrightarrow> train_step L cfg S i b = train_step L cfg S j b"
  by (cases S) (simp add: train_step_def log_step_quiet)

lemma train_loop_quiet_steps:
  "\<not> verbose cfg \<Longrightarrow> length bs \<le> length is \<Longrightarrow> length bs \<le> length js \<Longrightarrow>
     train_loop L cfg S (zip is bs) = train_loop L cfg S (zip js bs)"
proof (induction bs arbitrary: "is" js S)
  case Nil
  then show ?case by simp
next
  case (Cons b bs)
  from Cons.prems obtain i is' j js' where e: "is = i # is'" "js = j # js'"
    by (cases "is"; cases js) auto
  with Cons.prems have l: "length bs \<le> length is'" "length bs \<le> length js'" by simp_all
  have s: "train_step L cfg S i b = train_step L cfg S j b"
    using Cons.prems(1) by (rule train_step_quiet_step)
  show ?case
    unfolding e by (simp add: s Cons.IH[OF Cons.prems(1) l] split: sum.splits)
qed

lemma train_loop_quiet_filter:
  "\<not> verbose cfg \<Longrightarrow> length bs \<le> length is \<Longrightarrow>
     train_loop L cfg S (zip is bs) = train_loop L cfg S (zip is (filter (\<lambda>b. \<not> skipped cfg b) bs))"
proof (induction bs arbitrary: "is" S)
  case Nil
  then show ?case by simp
next
  case (Cons b bs)
  from Cons.prems obtain i is' where e: "is = i # is'" by (cases "is") auto
  with Cons.prems have l: "length bs \<le> length is'" by simp
  let ?f = "filter (\<lambda>b. \<not> skipped cfg b) bs"
  show ?case
  proof (cases "skipped cfg b")
    case True
    have lf: "length ?f \<le> length is'" "length ?f \<le> length (i # is')"
    proof -
      have "length ?f \<le> length bs" by (rule length_filter_le)
      then show "length ?f \<le> length is'" using l by (rule le_trans)
      then show "length ?f \<le> length (i # is')" by simp
    qed
    have "train_loop L cfg S (zip is (b # bs)) = train_loop L cfg S (zip is' bs)"
      unfolding e by (simp add: train_step_quiet_skipped[OF Cons.prems(1) True])
    also have "\<dots> = train_loop L cfg S (zip is' ?f)"
      by (rule Cons.IH[OF Cons.prems(1) l])
    also have "\<dots> = train_loop L cfg S (zip (i # is') ?f)"
      by (rule train_loop_quiet_steps[OF Cons.prems(1) lf])
    finally show ?thesis using True e by simp
  next
    case False
    then show ?thesis
      unfolding e by (simp add: Cons.IH[OF Cons.prems(1) l] split: sum.splits)
  qed
qed

lemma train_loop_all_skipped:
  "\<not> (verbose cfg \<and> verbose_step cfg = 0) \<Longrightarrow> \<forall>sb \<in> set sbs. skipped cfg (snd sb) \<Longrightarrow>
     \<exists>T1. train_loop L cfg (T, losses) sbs = Inr (T1, losses)
        \<and> model T1 = model T \<and> optimizer T1 = optimizer T \<and> scheduler T1 = scheduler T
        \<and> final_scores T1 = final_scores T \<and> model_training T1 = model_training T"
proof (induction sbs arbitrary: T)
  case Nil
  then show ?case by simp
next
  case (Cons sb sbs)
  from log_step_total[OF Cons.prems(1)] obtain T1 where
    l: "log_step cfg T losses (fst sb) = Inr T1" by blast
  note f = log_step_frame[OF l]
  from Cons.prems(2) have sk: "skipped cfg (snd sb)" and rest: "\<forall>sb \<in> set sbs. skipped cfg (snd sb)"
    by simp_all
  have st: "train_step L cfg (T, losses) (fst sb) (snd sb) = Inr (T1, losses)"
    by (simp add: train_step_skipped[OF sk] l)
  from Cons.IH[OF Cons.prems(1) rest, of T1] obtain T2 where
    "train_loop L cfg (T1, losses) sbs = Inr (T2, losses)"
    "model T2 = model T1" "optimizer T2 = optimizer T1" "scheduler T2 = scheduler T1"
    "final_scores T2 = final_scores T1" "model_training T2 = model_training T1" by blast
  with st f show ?case by simp
qed

lemma train_one_epoch_all_skipped:
  assumes "batch_size cfg \<noteq> 0" and "\<not> (verbose cfg \<and> verbose_step cfg = 0)"
    and "\<forall>b \<in> set loader. skipped cfg b"
  shows "\<exists>T1. train_one_epoch L cfg n T loader = Inr (T1, AverageMeter_init)
        \<and> model T1 = model T \<and> optimizer T1 = optimizer T \<and> scheduler T1 = scheduler T
        \<and> final_scores T1 = final_scores T \<and> model_training T1 = False"
proof -
  let ?sbs = "zip [0..<n div batch_size cfg] loader"
  have "\<forall>sb \<in> set ?sbs. skipped cfg (snd sb)"
    using assms(3) by (auto dest: set_zip_rightD)
  from train_loop_all_skipped[OF assms(2) this, of L "T\<lparr>model_training := True\<rparr>" AverageMeter_init]
  obtain T1 where l: "train_loop L cfg (T\<lparr>model_training := True\<rparr>, AverageMeter_init) ?sbs
        = Inr (T1, AverageMeter_init)"
    and f: "model T1 = model T" "optimizer T1 = optimizer T" "scheduler T1 = scheduler T"
      "final_scores T1 = final_scores T" by auto
  have "train_one_epoch L cfg n T loader = Inr (T1\<lparr>model_training := False\<rparr>, AverageMeter_init)"
    using assms(1) by (simp add: train_one_epoch_def l)
  with f show ?thesis by simp
qed

text \<open>
  Claim C10. A batch whose sum of target labels is strictly below 0.15 times the
  configured batch size is skipped: the step returns with the model, the optimizer, the
  scheduler, the rolling AUC meter and the loss meter as they were; only the log line of
  the step, written before the test, may have been added (and the step raises before the
  test when \<^verbatim>\<open>verbose\<close> is set with \<^verbatim>\<open>verbose_step = 0\<close>). With \<^verbatim>\<open>verbose\<close> off, an epoch over
  a loader gives the same result as over the loader without its skipped batches, and an
  epoch whose batches are all skipped leaves the model, the optimizer, the scheduler and
  both meters unchanged.
\<close>

theorem train_step_skips_batch:
  assumes "real_of_int (sum_list (targets b)) < real (batch_size cfg) * 0.15"
  shows "(verbose cfg \<and> verbose_step cfg = 0 \<longrightarrow>
            train_step L cfg (T, losses) step b = Inl ZeroDivisionError)
       \<and> (\<not> (verbose cfg \<and> verbose_step cfg = 0) \<longrightarrow>
            (\<exists>T1. train_step L cfg (T, losses) step b = Inr (T1, losses)
               \<and> model T1 = model T \<and> optimizer T1 = optimizer T \<and> scheduler T1 = scheduler T
               \<and> final_scores T1 = final_scores T \<and> model_training T1 = model_training T))
       \<and> (\<not> verbose cfg \<longrightarrow> train_step L cfg (T, losses) step b = Inr (T, losses))
       \<and> (\<not> verbose cfg \<and> length bs \<le> n \<longrightarrow>
            train_loop L cfg (T, losses) (zip [0..<n] bs)
              = train_loop L cfg (T, losses) (zip [0..<n] (filter (\<lambda>b. \<not> skipped cfg b) bs)))
       \<and> (batch_size cfg \<noteq> 0 \<and> \<not> (verbose cfg \<and> verbose_step cfg = 0)
            \<and> (\<forall>b \<in> set loader. skipped cfg b) \<longrightarrow>
            (\<exists>T1. train_one_epoch L cfg len T loader = Inr (T1, AverageMeter_init)
               \<and> model T1 = model T \<and> optimizer T1 = optimizer T \<and> scheduler T1 = scheduler T
               \<and> final_scores T1 = final_scores T))"
proof -
  have sk: "skipped cfg b" using assms by (simp add: skipped_def)
  have 1: "verbose cfg \<and> verbose_step cfg = 0 \<longrightarrow>
            train_step L cfg (T, losses) step b = Inl ZeroDivisionError"
    by (simp add: train_step_skipped[OF sk] log_step_def)
  have 2: "\<not> (verbose cfg \<and> verbose_step cfg = 0) \<longrightarrow>
            (\<exists>T1. train_step L cfg (T, losses) step b = Inr (T1, losses)
               \<and> model T1 = model T \<and> optimizer T1 = optimizer T \<and> scheduler T1 = scheduler T
               \<and> final_scores T1 = final_scores T \<and> model_training T1 = model_training T)"
  proof
    assume h: "\<not> (verbose cfg \<and> verbose_step cfg = 0)"
    from log_step_total[OF h] obtain T1 where l: "log_step cfg T losses step = Inr T1" by blast
    have "train_step L cfg (T, losses) step b = Inr (T1, losses)"
      by (simp add: train_step_skipped[OF sk] l)
    with log_step_frame[OF l]
    show "\<exists>T1. train_step L cfg (T, losses) step b = Inr (T1, losses)
               \<and> model T1 = model T \<and> optimizer T1 = optimizer T \<and> scheduler T1 = scheduler T
               \<and> final_scores T1 = final_scores T \<and> model_training T1 = model_training T"
      by blast
  qed
  have 3: "\<not> verbose cfg \<longrightarrow> train_step L cfg (T, losses) step b = Inr (T, losses)"
    by (simp add: train_step_quiet_skipped[OF _ sk])
  have 4: "\<not> verbose cfg \<and> length bs \<le> n \<longrightarrow>
            train_loop L cfg (T, losses) (zip [0..<n] bs)
              = train_loop L cfg (T, losses) (zip [0..<n] (filter (\<lambda>b. \<not> skipped cfg b) bs))"
    by (simp add: train_loop_quiet_filter)
  have 5: "batch_size cfg \<noteq> 0 \<and> \<not> (verbose cfg \<and> verbose_step cfg = 0)
            \<and> (\<forall>b \<in> set loader. skipped cfg b) \<longrightarrow>
            (\<exists>T1. train_one_epoch L cfg len T loader = Inr (T1, AverageMeter_init)
               \<and> model T1 = model T \<and> optimizer T1 = optimizer T \<and> scheduler T1 = scheduler T
               \<and> final_scores T1 = final_scores T)"
  proof
    assume h: "batch_size cfg \<noteq> 0 \<and> \<not> (verbose cfg \<and> verbose_step cfg = 0)
            \<and> (\<forall>b \<in> set loader. skipped cfg b)"
    then have a: "batch_size cfg \<noteq> 0" "\<not> (verbose cfg \<and> verbose_step cfg = 0)"
      "\<forall>b \<in> set loader. skipped cfg b" by blast+
    from train_one_epoch_all_skipped[OF a, of L len T]
    show "\<exists>T1. train_one_epoch L cfg len T loader = Inr (T1, AverageMeter_init)
               \<and> model T1 = model T \<and> optimizer T1 = optimizer T \<and> scheduler T1 = scheduler T
               \<and> final_scores T1 = final_scores T" by blast
  qed
  from 1 2 3 4 5 show ?thesis by blast
qed

theorem train_step_skips_batch_witness:
  "real_of_int (sum_list (targets one_toxic_batch)) < real (batch_size TrainGlobalConfig) * 0.15
   \<and> train_step example_learner TrainGlobalConfig (example_fitter, AverageMeter_init) 0 one_toxic_batch
       = Inr (example_fitter\<lparr>log_file := [TrainStep 0 0 0]\<rparr>, AverageMeter_init)
   \<and> (\<exists>T1. train_step example_learner TrainGlobalConfig (example_fitter, AverageMeter_init) 0 one_toxic_batch
              = Inr (T1, AverageMeter_init)
          \<and> model T1 = model example_fitter \<and> optimizer T1 = optimizer example_fitter
          \<and> final_scores T1 = final_scores example_fitter)
   \<and> \<not> real_of_int (sum_list (targets two_toxic_batch)) < real (batch_size TrainGlobalConfig) * 0.15
   \<and> map_sum id (\<lambda>S. (model (fst S), count_m (snd S)))
        (train_step example_learner TrainGlobalConfig (example_fitter, AverageMeter_init) 0 two_toxic_batch)
       = Inr (1, 7)"
proof -
  have h: "real_of_int (sum_list (targets one_toxic_batch)) < real (batch_size TrainGlobalConfig) * 0.15"
    by (simp add: one_toxic_batch_def TrainGlobalConfig_def)
  have v: "\<not> (verbose TrainGlobalConfig \<and> verbose_step TrainGlobalConfig = 0)"
    by (simp add: TrainGlobalConfig_def)
  have e: "train_step example_learner TrainGlobalConfig (example_fitter, AverageMeter_init) 0 one_toxic_batch
       = Inr (example_fitter\<lparr>log_file := [TrainStep 0 0 0]\<rparr>, AverageMeter_init)"
    by (simp add: train_step_def log_step_def skipped_def one_toxic_batch_def TrainGlobalConfig_def
        example_fitter_def AverageMeter_init_def AverageMeter_reset_def RocAucMeter_init_def
        RocAucMeter_reset_def RocAucMeter_avg_def)
  have n: "\<not> real_of_int (sum_list (targets two_toxic_batch)) < real (batch_size TrainGlobalConfig) * 0.15"
    by (simp add: two_toxic_batch_def TrainGlobalConfig_def)
  have l: "last_10000 xs = xs" if "length xs \<le> 10000" for xs :: "'a list"
    using that by (simp add: last_10000_def)
  have t: "map_sum id (\<lambda>S. (model (fst S), count_m (snd S)))
        (train_step example_learner TrainGlobalConfig (example_fitter, AverageMeter_init) 0 two_toxic_batch)
       = Inr (1, 7)"
    by (simp add: train_step_def log_step_def skipped_def two_toxic_batch_def TrainGlobalConfig_def
        example_fitter_def example_learner_def AverageMeter_init_def AverageMeter_reset_def
        AverageMeter_update_def RocAucMeter_init_def RocAucMeter_reset_def RocAucMeter_avg_def
        RocAucMeter_update_def exact_roc_auc_def softmax1_zero l Let_def)
  from train_step_skips_batch[OF h, of example_learner example_fitter AverageMeter_init 0 "[]" 0 "[]" 0] v
  have "\<exists>T1. train_step example_learner TrainGlobalConfig (example_fitter, AverageMeter_init) 0 one_toxic_batch
              = Inr (T1, AverageMeter_init)
          \<and> model T1 = model example_fitter \<and> optimizer T1 = optimizer example_fitter
          \<and> final_scores T1 = final_scores example_fitter"
    by blast
  with h e n t show ?thesis by blast
qed

end
